theory Spec2Isabelle
  imports Main "HOL-Library.Word" "HOL-Library.Multiset"
begin

unbundle bit_operations_syntax

section \<open>Wire format and CAN frames\<close>

type_synonym byte = "8 word"

text \<open>
  \<^verbatim>\<open>struct can_frame\<close> of SocketCAN: a 32-bit identifier, a one-byte length and the
  payload array \<^verbatim>\<open>__u8 data[8]\<close>. The field \<open>data\<close> is the content of that array.
\<close>

record can_frame =
  can_id :: "32 word"
  can_dlc :: byte
  data :: "byte list"

text \<open>
  Modelled from the spec: \<^verbatim>\<open>CANNELLONI_FRAME_VERSION\<close>, a macro of the protocol header that
  the source file includes but does not contain. The spec (section 6) gives it as 1.
\<close>

definition CANNELLONI_FRAME_VERSION :: byte where
  "CANNELLONI_FRAME_VERSION = 1"

text \<open>
  Modelled from the spec: the op code \<^verbatim>\<open>DATA\<close> of the same header, the only op code the
  spec names (section 4.1). The spec gives no number for it; it is taken as the first
  enumerator, and no property below depends on the number.
\<close>

definition DATA :: byte where
  "DATA = 0"

text \<open>
  Modelled from the spec: \<^verbatim>\<open>CANNELLONI_FRAME_BASE_SIZE\<close>, the bytes of a frame record before
  its payload, given as 5 (section 6): four of the identifier and one of the length.
\<close>

definition CANNELLONI_FRAME_BASE_SIZE :: nat where
  "CANNELLONI_FRAME_BASE_SIZE = 5"

text \<open>
  Modelled from the spec: \<^verbatim>\<open>UDP_DATA_PACKET_BASE_SIZE\<close>, the bytes of the datagram header,
  given as 5 (section 6): version, op code, sequence number and a two-byte count.
\<close>

definition UDP_DATA_PACKET_BASE_SIZE :: nat where
  "UDP_DATA_PACKET_BASE_SIZE = 5"

text \<open>
  Modelled from the spec: \<^verbatim>\<open>UDP_PAYLOAD_SIZE\<close>, given as 1500 minus the IP and UDP headers
  (section 6), which is 1472.
\<close>

definition UDP_PAYLOAD_SIZE :: nat where
  "UDP_PAYLOAD_SIZE = 1472"

text \<open>Network byte order: \<^verbatim>\<open>htonl\<close>/\<^verbatim>\<open>htons\<close> stored to memory, \<^verbatim>\<open>ntohl\<close>/\<^verbatim>\<open>ntohs\<close> loaded from it.\<close>

definition htonl_bytes :: "32 word \<Rightarrow> byte list" where
  "htonl_bytes w = [ucast (drop_bit 24 w), ucast (drop_bit 16 w), ucast (drop_bit 8 w), ucast w]"

definition htons_bytes :: "16 word \<Rightarrow> byte list" where
  "htons_bytes w = [ucast (drop_bit 8 w), ucast w]"

definition ntohl_bytes :: "byte \<Rightarrow> byte \<Rightarrow> byte \<Rightarrow> byte \<Rightarrow> 32 word" where
  "ntohl_bytes b0 b1 b2 b3 =
     push_bit 24 (ucast b0) OR push_bit 16 (ucast b1) OR push_bit 8 (ucast b2) OR ucast b3"

definition ntohs_bytes :: "byte \<Rightarrow> byte \<Rightarrow> 16 word" where
  "ntohs_bytes b0 b1 = push_bit 8 (ucast b0) OR ucast b1"

section \<open>Receiving: the socket branch of \<^verbatim>\<open>UDPThread::run\<close>\<close>

text \<open>
  The receive buffer is cleared with \<^verbatim>\<open>memset\<close> before \<^verbatim>\<open>recvfrom\<close> fills its first
  \<^verbatim>\<open>receivedBytes\<close> bytes. A datagram \<open>dg\<close> is the list of received bytes, so that
  \<^verbatim>\<open>receivedBytes\<close> is \<open>length dg\<close>; a byte of the buffer past them reads as zero.
\<close>

definition buffer_at :: "byte list \<Rightarrow> nat \<Rightarrow> byte" where
  "buffer_at dg i = (if i < length dg then dg ! i else 0)"

definition ntohl_at :: "byte list \<Rightarrow> nat \<Rightarrow> 32 word" where
  "ntohl_at dg p =
     ntohl_bytes (buffer_at dg p) (buffer_at dg (p + 1)) (buffer_at dg (p + 2)) (buffer_at dg (p + 3))"

text \<open>
  Modelled from the spec: the layout of \<^verbatim>\<open>struct UDPDataPacket\<close>, declared in the protocol
  header. The spec (section 4.1) gives the fields in this order: version, op code and
  sequence number, one byte each, and the frame count, two bytes in network byte order.
  These are the fields read from the start of the receive buffer.
\<close>

definition pkt_version :: "byte list \<Rightarrow> byte" where
  "pkt_version dg = buffer_at dg 0"

definition pkt_op_code :: "byte list \<Rightarrow> byte" where
  "pkt_op_code dg = buffer_at dg 1"

definition pkt_seq_no :: "byte list \<Rightarrow> byte" where
  "pkt_seq_no dg = buffer_at dg 2"

definition pkt_count :: "byte list \<Rightarrow> 16 word" where
  "pkt_count dg = ntohs_bytes (buffer_at dg 3) (buffer_at dg 4)"

text \<open>
  \<^verbatim>\<open>memcpy(frame.data, rawData, n)\<close> for \<open>n\<close> up to 8, into the local \<^verbatim>\<open>can_frame frame\<close>,
  which is not initialised: \<open>junk\<close> is what the array \<^verbatim>\<open>frame.data\<close> held before the
  copy, and the result is what it holds after it.
\<close>

definition memcpy_into :: "byte list \<Rightarrow> byte list \<Rightarrow> nat \<Rightarrow> byte list" where
  "memcpy_into junk src n = take n src @ drop n junk"

record decoded =
  dec_error :: bool
  dec_frames :: "can_frame list"

text \<open>
  One round of the \<^verbatim>\<open>for\<close> loop, up to \<^verbatim>\<open>rawData += frame.can_dlc\<close>. \<open>p\<close> is
  \<^verbatim>\<open>rawData - buffer\<close>.
  \<^item> \<open>Incomplete\<close> is either of the two \<^verbatim>\<open>error = true; break\<close> exits.
  \<^item> \<open>OutOfBounds frame n\<close>: the record passed both length checks with a length byte above
    8, and \<^verbatim>\<open>memcpy\<close> is called to copy \<open>n\<close> bytes into the 8-byte array of \<open>frame\<close>, whose
    identifier and length are set and whose array still holds \<open>junk\<close>. The write leaves
    the array and the frame, a local variable of \<^verbatim>\<open>run\<close>; from here on the behaviour of
    the program is undefined.
  \<^item> \<open>Complete frame q\<close>: the frame read, and the new \<^verbatim>\<open>rawData - buffer\<close>.
\<close>

datatype read_result =
  Incomplete
  | OutOfBounds can_frame nat
  | Complete can_frame nat

definition read_record :: "byte list \<Rightarrow> byte list \<Rightarrow> nat \<Rightarrow> read_result" where
  "read_record junk dg p =
     (if p + CANNELLONI_FRAME_BASE_SIZE > length dg then Incomplete
      else
        let cid = ntohl_at dg p;
            dlc = buffer_at dg (p + 4);
            q = p + 5
        in if q + unat dlc > length dg then Incomplete
           else if 8 < unat dlc
           then OutOfBounds \<lparr>can_id = cid, can_dlc = dlc, data = junk\<rparr> (unat dlc)
           else Complete \<lparr>can_id = cid, can_dlc = dlc,
                           data = memcpy_into junk (drop q dg) (unat dlc)\<rparr>
                  (q + unat dlc))"

text \<open>
  The loop \<^verbatim>\<open>for (uint16_t i = 0; i < ntohs(data->count); i++)\<close>, by the number of rounds
  left. \<open>i\<close> is the loop counter, \<open>junk i\<close> the prior content of \<^verbatim>\<open>frame.data\<close> in round
  \<open>i\<close>. \<open>dec_error\<close> tells whether the loop left through a \<^verbatim>\<open>break\<close>. The result is
  \<open>None\<close> when a round writes out of bounds: nothing is known of the program after that.
\<close>

fun decode_loop ::
  "(nat \<Rightarrow> byte list) \<Rightarrow> byte list \<Rightarrow> nat \<Rightarrow> nat \<Rightarrow> nat \<Rightarrow> decoded \<Rightarrow> decoded option" where
  "decode_loop junk dg 0 i p acc = Some acc"
| "decode_loop junk dg (Suc n) i p acc =
     (case read_record (junk i) dg p of
        Incomplete \<Rightarrow> Some (acc\<lparr>dec_error := True\<rparr>)
      | OutOfBounds frame k \<Rightarrow> None
      | Complete frame q \<Rightarrow>
          decode_loop junk dg n (Suc i) q (acc\<lparr>dec_frames := dec_frames acc @ [frame]\<rparr>))"

text \<open>An IPv4 socket address: \<^verbatim>\<open>struct sockaddr_in\<close>.\<close>

record sockaddr_in =
  sin_port :: "16 word"
  sin_addr :: "32 word"

text \<open>
  \<^verbatim>\<open>inet_ntop(AF_INET, ...)\<close> fails only when the dotted-decimal text and its terminating
  zero do not fit into the given size; the caller passes \<^verbatim>\<open>INET_ADDRSTRLEN\<close>, which is 16.
\<close>

definition dec_digits :: "byte \<Rightarrow> nat" where
  "dec_digits b = (if unat b < 10 then 1 else if unat b < 100 then 2 else 3)"

definition inet_ntop_ok :: "32 word \<Rightarrow> nat \<Rightarrow> bool" where
  "inet_ntop_ok a sz =
     (dec_digits (ucast (drop_bit 24 a)) + dec_digits (ucast (drop_bit 16 a))
        + dec_digits (ucast (drop_bit 8 a)) + dec_digits (ucast a) + 3 + 1 \<le> sz)"

definition INET_ADDRSTRLEN :: nat where
  "INET_ADDRSTRLEN = 16"

text \<open>What \<^verbatim>\<open>recvfrom\<close> returned: a negative value, or a datagram and its source.\<close>

datatype recv_result = RecvFailed | Received sockaddr_in "byte list"

text \<open>
  What one pass through the socket branch did. \<open>Handed fs\<close> is the call
  \<^verbatim>\<open>m_canThread->transmitCANFrames(canFrames)\<close> with \<open>canFrames = fs\<close>. \<open>Returned\<close> leaves
  \<^verbatim>\<open>run\<close>. \<open>Undefined\<close> is a pass whose decoding wrote out of bounds: whether a call is
  made, and what the program does at all, is not defined. Every other outcome makes no
  call, and the loop goes on.
\<close>

datatype rx_outcome =
  Returned
  | NoData
  | AddrNotConverted
  | UnexpectedSource
  | DroppedHeader
  | Handed "can_frame list"
  | Undefined

definition header_drop :: "byte list \<Rightarrow> bool" where
  "header_drop dg =
     (if pkt_version dg \<noteq> CANNELLONI_FRAME_VERSION then True
      else if pkt_op_code dg \<noteq> DATA then True
      else unat (pkt_count dg) = 0)"

definition decode_datagram :: "(nat \<Rightarrow> byte list) \<Rightarrow> byte list \<Rightarrow> decoded option" where
  "decode_datagram junk dg =
     decode_loop junk dg (unat (pkt_count dg)) 0 UDP_DATA_PACKET_BASE_SIZE
       \<lparr>dec_error = False, dec_frames = []\<rparr>"

text \<open>The loop and the call after it, which does not look at \<^verbatim>\<open>error\<close>.\<close>

definition decode_and_hand :: "(nat \<Rightarrow> byte list) \<Rightarrow> byte list \<Rightarrow> rx_outcome" where
  "decode_and_hand junk dg =
     (case decode_datagram junk dg of
        None \<Rightarrow> Undefined
      | Some d \<Rightarrow> Handed (dec_frames d))"

definition socket_ready ::
  "(nat \<Rightarrow> byte list) \<Rightarrow> sockaddr_in \<Rightarrow> recv_result \<Rightarrow> rx_outcome" where
  "socket_ready junk remoteAddr r =
     (case r of
        RecvFailed \<Rightarrow> Returned
      | Received clientAddr dg \<Rightarrow>
          if length dg = 0 then NoData
          else if \<not> inet_ntop_ok (sin_addr clientAddr) INET_ADDRSTRLEN then AddrNotConverted
          else if sin_addr clientAddr \<noteq> sin_addr remoteAddr then UnexpectedSource
          else if header_drop dg then DroppedHeader
          else decode_and_hand junk dg)"

section \<open>The CAN worker's side of the hand-over\<close>

text \<open>\<^verbatim>\<open>struct itimerspec\<close>, seconds and nanoseconds of the interval and of the next expiry.\<close>

record itimerspec =
  it_interval_sec :: nat
  it_interval_nsec :: nat
  it_value_sec :: nat
  it_value_nsec :: nat

record can_thread =
  c_frameBuffer :: "can_frame list"
  c_timer_log :: "itimerspec list"

definition CAN_fireTimer :: "nat \<Rightarrow> can_thread \<Rightarrow> can_thread" where
  "CAN_fireTimer can_timeout c =
     c\<lparr>c_timer_log := c_timer_log c @
        [\<lparr>it_interval_sec = can_timeout div 1000,
          it_interval_nsec = (can_timeout mod 1000) * 1000000,
          it_value_sec = 0, it_value_nsec = 1000\<rparr>]\<rparr>"

definition transmitCANFrames :: "nat \<Rightarrow> can_frame list \<Rightarrow> can_thread \<Rightarrow> can_thread" where
  "transmitCANFrames can_timeout frames c =
     CAN_fireTimer can_timeout (c\<lparr>c_frameBuffer := c_frameBuffer c @ frames\<rparr>)"

text \<open>
  The effect of one pass through the socket branch on the CAN worker; none is defined
  after a pass that wrote out of bounds.
\<close>

definition hand_over :: "nat \<Rightarrow> rx_outcome \<Rightarrow> can_thread \<Rightarrow> can_thread option" where
  "hand_over can_timeout out c =
     (case out of
        Handed fs \<Rightarrow> Some (transmitCANFrames can_timeout fs c)
      | Undefined \<Rightarrow> None
      | _ \<Rightarrow> Some c)"

section \<open>The UDP worker: pool, buffers and flush\<close>

text \<open>
  The three \<^verbatim>\<open>std::list<can_frame*>\<close>. A slot is the address \<^verbatim>\<open>new can_frame\<close> returned.
  The content of an idle slot is never read (\<^verbatim>\<open>sendCANFrame\<close> overwrites it before the
  slot enters the buffer), so the pool lists addresses only and a buffer lists each slot
  with the frame stored in it. The counters are declared in a header that the source
  file includes; they are natural numbers here, and the conversion to the \<^verbatim>\<open>uint32_t\<close>
  parameter of \<^verbatim>\<open>resizePool\<close> is written out. \<open>next_slot\<close> is the allocator: the next
  address \<^verbatim>\<open>new\<close> hands out. \<open>udp_out\<close> lists the buffers passed to \<^verbatim>\<open>sendto\<close>,
  \<open>timer_log\<close> the settings passed to \<^verbatim>\<open>timerfd_settime\<close> by \<^verbatim>\<open>fireTimer\<close>.
\<close>

record udp_thread =
  m_remoteAddr :: sockaddr_in
  m_localAddr :: sockaddr_in
  m_framePool :: "nat list"
  m_frameBuffer :: "(nat \<times> can_frame) list"
  m_frameBuffer_trans :: "(nat \<times> can_frame) list"
  m_frameBufferSize :: nat
  m_frameBufferSize_trans :: nat
  m_totalAllocCount :: nat
  m_sequenceNumber :: byte
  m_timeout :: "32 word"
  m_rxCount :: nat
  m_txCount :: nat
  next_slot :: nat
  udp_out :: "byte list list"
  timer_log :: "itimerspec list"

text \<open>
  The constructor. Its initialiser list leaves \<^verbatim>\<open>m_totalAllocCount\<close> out: \<open>total0\<close> is
  whatever the member holds then.
\<close>

definition UDPThread :: "sockaddr_in \<Rightarrow> sockaddr_in \<Rightarrow> nat \<Rightarrow> nat \<Rightarrow> udp_thread" where
  "UDPThread remoteAddr localAddr total0 slot0 =
     \<lparr>m_remoteAddr = remoteAddr, m_localAddr = localAddr,
      m_framePool = [], m_frameBuffer = [], m_frameBuffer_trans = [],
      m_frameBufferSize = 0, m_frameBufferSize_trans = 0,
      m_totalAllocCount = total0, m_sequenceNumber = 0, m_timeout = 100,
      m_rxCount = 0, m_txCount = 0,
      next_slot = slot0, udp_out = [], timer_log = []\<rparr>"

text \<open>
  The pass as a step of the worker: the outcome and the worker after it, with the
  datagram counted when its header passed. \<open>None\<close> is the pass that wrote out of bounds.
\<close>

definition udp_socket_ready ::
  "(nat \<Rightarrow> byte list) \<Rightarrow> recv_result \<Rightarrow> udp_thread \<Rightarrow> (rx_outcome \<times> udp_thread) option" where
  "udp_socket_ready junk r s =
     (let out = socket_ready junk (m_remoteAddr s) r
      in case out of
           Handed fs \<Rightarrow> Some (out, s\<lparr>m_rxCount := m_rxCount s + 1\<rparr>)
         | Undefined \<Rightarrow> None
         | _ \<Rightarrow> Some (out, s))"

definition setTimeout :: "32 word \<Rightarrow> udp_thread \<Rightarrow> udp_thread" where
  "setTimeout timeout s = s\<lparr>m_timeout := timeout\<rparr>"

definition fireTimer :: "udp_thread \<Rightarrow> udp_thread" where
  "fireTimer s =
     s\<lparr>timer_log := timer_log s @
        [\<lparr>it_interval_sec = unat (m_timeout s div 1000),
          it_interval_nsec = unat ((m_timeout s mod 1000) * 1000000),
          it_value_sec = 0, it_value_nsec = 1000\<rparr>]\<rparr>"

text \<open>The loop of \<^verbatim>\<open>resizePool\<close>: \<open>n\<close> times \<^verbatim>\<open>push_back(new can_frame)\<close>.\<close>

fun alloc_slots :: "nat \<Rightarrow> udp_thread \<Rightarrow> udp_thread" where
  "alloc_slots 0 s = s"
| "alloc_slots (Suc n) s =
     alloc_slots n (s\<lparr>m_framePool := m_framePool s @ [next_slot s], next_slot := next_slot s + 1\<rparr>)"

definition resizePool :: "32 word \<Rightarrow> udp_thread \<Rightarrow> udp_thread" where
  "resizePool sz s =
     (let s1 = alloc_slots (unat sz) s
      in s1\<lparr>m_totalAllocCount := m_totalAllocCount s1 + unat sz\<rparr>)"

definition clearPool :: "udp_thread \<Rightarrow> udp_thread" where
  "clearPool s = s\<lparr>m_framePool := [], m_totalAllocCount := 0\<rparr>"

text \<open>
  \<^verbatim>\<open>sendCANFrame\<close>. \<^verbatim>\<open>m_framePool.front()\<close> on a pool that is still empty after the
  resize (the total was 0 modulo \<open>2 ^ 32\<close>) has no defined behaviour: \<open>None\<close>.
\<close>

definition sendCANFrame :: "can_frame \<Rightarrow> udp_thread \<Rightarrow> udp_thread option" where
  "sendCANFrame frame s =
     (let s1 = (if m_framePool s = [] then resizePool (of_nat (m_totalAllocCount s)) s else s)
      in case m_framePool s1 of
           [] \<Rightarrow> None
         | poolFrame # rest \<Rightarrow>
             let s2 = s1\<lparr>m_framePool := rest,
                         m_frameBuffer := m_frameBuffer s1 @ [(poolFrame, frame)]\<rparr>;
                 s3 = s2\<lparr>m_frameBufferSize :=
                           m_frameBufferSize s2 + CANNELLONI_FRAME_BASE_SIZE + unat (can_dlc frame)\<rparr>
             in Some (if m_frameBufferSize s3 + UDP_DATA_PACKET_BASE_SIZE \<ge> UDP_PAYLOAD_SIZE
                      then fireTimer s3 else s3))"

text \<open>
  \<^verbatim>\<open>std::list::sort(comp)\<close> is a stable sort: for a strict weak order its result is the
  one of inserting every element before the first one that is not smaller.
\<close>

fun insert_comp :: "('a \<Rightarrow> 'a \<Rightarrow> bool) \<Rightarrow> 'a \<Rightarrow> 'a list \<Rightarrow> 'a list" where
  "insert_comp cmp x [] = [x]"
| "insert_comp cmp x (y # ys) =
     (if cmp y x then y # insert_comp cmp x ys else x # y # ys)"

definition list_sort :: "('a \<Rightarrow> 'a \<Rightarrow> bool) \<Rightarrow> 'a list \<Rightarrow> 'a list" where
  "list_sort cmp xs = foldr (insert_comp cmp) xs []"

text \<open>\<^verbatim>\<open>std::list::merge\<close> on lists of pointers, which compares the addresses.\<close>

fun list_merge :: "nat list \<Rightarrow> nat list \<Rightarrow> nat list" where
  "list_merge [] ys = ys"
| "list_merge (x # xs) [] = x # xs"
| "list_merge (x # xs) (y # ys) =
     (if y < x then y # list_merge (x # xs) ys else x # list_merge xs (y # ys))"

text \<open>One record of the wire format, as the loop body of \<^verbatim>\<open>transmitBuffer\<close> writes it.\<close>

definition frame_record :: "can_frame \<Rightarrow> byte list" where
  "frame_record f = htonl_bytes (can_id f) @ [can_dlc f] @ take (unat (can_dlc f)) (data f)"

text \<open>
  Writing the header into the packet buffer and passing the buffer up to the cursor to
  \<^verbatim>\<open>sendto\<close>. \<open>body\<close> is the buffer from the header's end to the cursor, so that
  \<^verbatim>\<open>data - packetBuffer\<close> is \<open>UDP_DATA_PACKET_BASE_SIZE + length body\<close>. The function
  \<open>sendto\<close> gives the value the system call returns for a buffer.
\<close>

definition seal_and_send ::
  "(byte list \<Rightarrow> int) \<Rightarrow> byte list \<Rightarrow> 16 word \<Rightarrow> udp_thread \<Rightarrow> udp_thread" where
  "seal_and_send sendto body frameCount s =
     (let pkt = [CANNELLONI_FRAME_VERSION, DATA, m_sequenceNumber s] @ htons_bytes frameCount @ body;
          s1 = s\<lparr>m_sequenceNumber := m_sequenceNumber s + 1, udp_out := udp_out s @ [pkt]\<rparr>
      in if sendto pkt \<noteq> int (length pkt) then s1 else s1\<lparr>m_txCount := m_txCount s1 + 1\<rparr>)"

text \<open>
  The loop over the sorted in-flight buffer. \<^verbatim>\<open>memcpy(data, frame->data, frame->can_dlc)\<close>
  with a length above 8 reads past the frame's array: \<open>None\<close>.
\<close>

fun encode_loop ::
  "(byte list \<Rightarrow> int) \<Rightarrow> can_frame list \<Rightarrow> byte list \<Rightarrow> 16 word \<Rightarrow> udp_thread
     \<Rightarrow> (byte list \<times> 16 word \<times> udp_thread) option" where
  "encode_loop sendto [] body frameCount s = Some (body, frameCount, s)"
| "encode_loop sendto (f # fs) body frameCount s =
     (let overflow = (UDP_DATA_PACKET_BASE_SIZE + length body + CANNELLONI_FRAME_BASE_SIZE
                        + unat (can_dlc f) > UDP_PAYLOAD_SIZE);
          s1 = (if overflow then seal_and_send sendto body frameCount s else s);
          body1 = (if overflow then [] else body);
          frameCount1 = (if overflow then 0 else frameCount)
      in if 8 < unat (can_dlc f) then None
         else encode_loop sendto fs (body1 @ frame_record f) (frameCount1 + 1) s1)"

text \<open>The loop and the final datagram after it.\<close>

definition emit_frames ::
  "(byte list \<Rightarrow> int) \<Rightarrow> can_frame list \<Rightarrow> udp_thread \<Rightarrow> udp_thread option" where
  "emit_frames sendto fs s =
     (case encode_loop sendto fs [] 0 s of
        None \<Rightarrow> None
      | Some (body, frameCount, s1) \<Rightarrow> Some (seal_and_send sendto body frameCount s1))"

text \<open>
  \<^verbatim>\<open>transmitBuffer\<close>: swap, sort, emit, merge the slots back. \<open>cmp\<close> is the comparator
  \<^verbatim>\<open>can_frame_comp\<close>, applied to the frames the pointers refer to.
\<close>

definition transmitBuffer ::
  "(can_frame \<Rightarrow> can_frame \<Rightarrow> bool) \<Rightarrow> (byte list \<Rightarrow> int) \<Rightarrow> udp_thread \<Rightarrow> udp_thread option" where
  "transmitBuffer cmp sendto s =
     (let s1 = s\<lparr>m_frameBufferSize := m_frameBufferSize_trans s,
                 m_frameBufferSize_trans := m_frameBufferSize s,
                 m_frameBuffer := m_frameBuffer_trans s,
                 m_frameBuffer_trans := m_frameBuffer s\<rparr>;
          s2 = s1\<lparr>m_frameBuffer_trans :=
                    list_sort (\<lambda>a b. cmp (snd a) (snd b)) (m_frameBuffer_trans s1)\<rparr>
      in case emit_frames sendto (map snd (m_frameBuffer_trans s2)) s2 of
           None \<Rightarrow> None
         | Some s3 \<Rightarrow>
             Some (s3\<lparr>m_framePool := list_merge (m_framePool s3) (map fst (m_frameBuffer_trans s3)),
                      m_frameBuffer_trans := [],
                      m_frameBufferSize_trans := 0\<rparr>))"

section \<open>Notions used to state the properties\<close>

text \<open>The bytes a frame takes on the wire, and those of a list of frames.\<close>

definition frame_wire_size :: "can_frame \<Rightarrow> nat" where
  "frame_wire_size f = CANNELLONI_FRAME_BASE_SIZE + unat (can_dlc f)"

definition buffer_wire_size :: "can_frame list \<Rightarrow> nat" where
  "buffer_wire_size fs = sum_list (map frame_wire_size fs)"

text \<open>A CAN frame as the bus delivers it: at most 8 payload bytes, in an array of 8.\<close>

definition valid_frame :: "can_frame \<Rightarrow> bool" where
  "valid_frame f = (unat (can_dlc f) \<le> 8 \<and> length (data f) = 8)"

text \<open>
  What a frame means: identifier, length and the payload bytes the length covers. The
  rest of the array is padding.
\<close>

definition frame_view :: "can_frame \<Rightarrow> 32 word \<times> byte \<times> byte list" where
  "frame_view f = (can_id f, can_dlc f, take (unat (can_dlc f)) (data f))"

text \<open>The bytes of one datagram that carries the frames \<open>fs\<close> under sequence number \<open>sq\<close>.\<close>

definition datagram :: "byte \<Rightarrow> can_frame list \<Rightarrow> byte list" where
  "datagram sq fs =
     [CANNELLONI_FRAME_VERSION, DATA, sq] @ htons_bytes (of_nat (length fs))
       @ concat (map frame_record fs)"

text \<open>Datagrams for a list of frame lists, numbered from \<open>sq\<close> on.\<close>

fun datagrams :: "byte \<Rightarrow> can_frame list list \<Rightarrow> byte list list" where
  "datagrams sq [] = []"
| "datagrams sq (c # cs) = datagram sq c # datagrams (sq + 1) cs"

text \<open>
  Cutting a list of frames greedily: \<open>cur\<close> is the piece being filled, and a frame that
  would take it over the payload ceiling starts the next piece.
\<close>

fun chunks_from :: "can_frame list \<Rightarrow> can_frame list \<Rightarrow> can_frame list list" where
  "chunks_from cur [] = [cur]"
| "chunks_from cur (f # fs) =
     (if UDP_DATA_PACKET_BASE_SIZE + buffer_wire_size cur + frame_wire_size f > UDP_PAYLOAD_SIZE
      then cur # chunks_from [f] fs
      else chunks_from (cur @ [f]) fs)"

text \<open>Pool conservation: every slot allocated is in the pool or in one of the two buffers.\<close>

definition conserved :: "udp_thread \<Rightarrow> bool" where
  "conserved s =
     (length (m_framePool s) + length (m_frameBuffer s) + length (m_frameBuffer_trans s)
        = m_totalAllocCount s)"

text \<open>
  The states of a UDP worker between two operations: the constructor's state, and every
  state a completed operation leads to from such a state.
\<close>

inductive reachable :: "udp_thread \<Rightarrow> bool" where
  reach_new: "reachable (UDPThread remoteAddr localAddr total0 slot0)"
| reach_resizePool: "reachable s \<Longrightarrow> reachable (resizePool sz s)"
| reach_clearPool: "reachable s \<Longrightarrow> reachable (clearPool s)"
| reach_setTimeout: "reachable s \<Longrightarrow> reachable (setTimeout timeout s)"
| reach_sendCANFrame: "reachable s \<Longrightarrow> sendCANFrame frame s = Some s' \<Longrightarrow> reachable s'"
| reach_transmitBuffer: "reachable s \<Longrightarrow> transmitBuffer cmp sendto s = Some s' \<Longrightarrow> reachable s'"
| reach_socket_ready: "reachable s \<Longrightarrow> udp_socket_ready junk r s = Some (out, s') \<Longrightarrow> reachable s'"

text \<open>
  Modelled from the spec: the lexicographic order on payloads that the comparator below
  falls back to (section 3: "then lexicographic payload"). Bytes compare as unsigned.
\<close>

fun lex_less :: "byte list \<Rightarrow> byte list \<Rightarrow> bool" where
  "lex_less [] [] = False"
| "lex_less [] (y # ys) = True"
| "lex_less (x # xs) [] = False"
| "lex_less (x # xs) (y # ys) =
     (if x < y then True else if y < x then False else lex_less xs ys)"

text \<open>
  Modelled from the spec: the comparator \<^verbatim>\<open>can_frame_comp\<close>, declared in a header that
  the source file includes but does not contain. The spec (section 3) orders frames by
  the unsigned identifier, ties broken by the length, then by the payload
  lexicographically.
\<close>

definition can_frame_comp :: "can_frame \<Rightarrow> can_frame \<Rightarrow> bool" where
  "can_frame_comp f1 f2 =
     (if can_id f1 \<noteq> can_id f2 then can_id f1 < can_id f2
      else if can_dlc f1 \<noteq> can_dlc f2 then can_dlc f1 < can_dlc f2
      else lex_less (take (unat (can_dlc f1)) (data f1)) (take (unat (can_dlc f2)) (data f2)))"

text \<open>
  The datagrams passed to \<^verbatim>\<open>sendto\<close> so far carry the sequence numbers 0, 1, 2, ...
  modulo 256, and the counter is the number of datagrams so far.
\<close>

definition seq_inv :: "udp_thread \<Rightarrow> bool" where
  "seq_inv s = (map pkt_seq_no (udp_out s) = map of_nat [0..<length (udp_out s)]
       \<and> m_sequenceNumber s = of_nat (length (udp_out s)))"

section \<open>Sample values\<close>

text \<open>A freshly constructed worker, some frames, a comparator by identifier and two
  environments, for concrete runs.\<close>

definition sample_thread :: udp_thread where
  "sample_thread =
     UDPThread \<lparr>sin_port = 20000, sin_addr = 0x0A000001\<rparr>
               \<lparr>sin_port = 20000, sin_addr = 0x0A000002\<rparr> 0 0"

definition sample_frame_a :: can_frame where
  "sample_frame_a = \<lparr>can_id = 0x123, can_dlc = 2, data = [0xDE, 0xAD, 0, 0, 0, 0, 0, 0]\<rparr>"

definition sample_frame_b :: can_frame where
  "sample_frame_b = \<lparr>can_id = 0x42, can_dlc = 0, data = [0, 0, 0, 0, 0, 0, 0, 0]\<rparr>"

definition sample_frame_6 :: can_frame where
  "sample_frame_6 = \<lparr>can_id = 0x80000100, can_dlc = 6, data = [1, 2, 3, 4, 5, 6, 0, 0]\<rparr>"

definition sample_frame_7 :: can_frame where
  "sample_frame_7 = \<lparr>can_id = 0x80000100, can_dlc = 7, data = [1, 2, 3, 4, 5, 6, 7, 0]\<rparr>"

definition sample_frame_8 :: can_frame where
  "sample_frame_8 = \<lparr>can_id = 0x7FF, can_dlc = 8, data = [1, 2, 3, 4, 5, 6, 7, 8]\<rparr>"

definition sample_comp :: "can_frame \<Rightarrow> can_frame \<Rightarrow> bool" where
  "sample_comp f1 f2 = (can_id f1 < can_id f2)"

definition sendto_all :: "byte list \<Rightarrow> int" where
  "sendto_all pkt = int (length pkt)"

definition zero_junk :: "nat \<Rightarrow> byte list" where
  "zero_junk i = replicate 8 0"

section \<open>Properties of the receive path\<close>

lemma dec_digits_le: "dec_digits b \<le> 3"
  by (simp add: dec_digits_def)

lemma inet_ntop_always: "inet_ntop_ok a INET_ADDRSTRLEN"
proof -
  have "dec_digits (ucast (drop_bit 24 a)) + dec_digits (ucast (drop_bit 16 a))
        + dec_digits (ucast (drop_bit 8 a)) + dec_digits (ucast a) \<le> 3 + 3 + 3 + 3"
    by (intro add_mono dec_digits_le)
  then show ?thesis
    by (simp add: inet_ntop_ok_def INET_ADDRSTRLEN_def)
qed

text \<open>
  A record whose length byte is above 8 and covered by the received bytes passes both
  length checks, and the copy of its payload is the next thing the round does.
\<close>

lemma read_record_reserved:
  assumes "p + 5 + unat (buffer_at dg (p + 4)) \<le> length dg"
    and "8 < unat (buffer_at dg (p + 4))"
  shows "read_record junk dg p
           = OutOfBounds \<lparr>can_id = ntohl_at dg p, can_dlc = buffer_at dg (p + 4), data = junk\<rparr>
               (unat (buffer_at dg (p + 4)))"
  using assms
  by (simp add: read_record_def Let_def CANNELLONI_FRAME_BASE_SIZE_def)

text \<open>
  So for every datagram whose header passes and whose first record is such a record, the
  pass through the socket branch has no defined outcome.
\<close>

lemma reserved_length_out_of_bounds:
  assumes "\<not> header_drop dg"
    and "UDP_DATA_PACKET_BASE_SIZE + CANNELLONI_FRAME_BASE_SIZE + unat (buffer_at dg 9) \<le> length dg"
    and "8 < unat (buffer_at dg 9)"
  shows "decode_datagram junk dg = None
       \<and> socket_ready junk remote (Received \<lparr>sin_port = port, sin_addr = sin_addr remote\<rparr> dg)
           = Undefined"
proof -
  from assms(1) obtain n where n: "unat (pkt_count dg) = Suc n"
    by (cases "unat (pkt_count dg)") (auto simp: header_drop_def split: if_splits)
  from assms(2) have len: "5 + 5 + unat (buffer_at dg (5 + 4)) \<le> length dg"
    by (simp add: UDP_DATA_PACKET_BASE_SIZE_def CANNELLONI_FRAME_BASE_SIZE_def)
  from assms(3) have big: "8 < unat (buffer_at dg (5 + 4))"
    by simp
  have d: "decode_datagram junk dg = None"
    by (simp add: decode_datagram_def n UDP_DATA_PACKET_BASE_SIZE_def
        read_record_reserved [OF len big])
  have "dg \<noteq> []"
    using len by auto
  then show ?thesis
    using assms(1) d by (simp add: socket_ready_def inet_ntop_always decode_and_hand_def)
qed




text \<open>
  C1. The claim: when decoding fails partway, the frames already extracted from the
  datagram are discarded and none is handed to the CAN worker. The code sets \<^verbatim>\<open>error\<close>
  and leaves the loop, but never reads \<^verbatim>\<open>error\<close>: the call of \<^verbatim>\<open>transmitCANFrames\<close>
  follows the loop on every path. For a datagram that announces two frames and carries
  one complete record followed by four bytes of the next, decoding fails in the second
  round, and the first frame is handed over and reaches the CAN worker's buffer.
\<close>

theorem truncated_datagram_frames_handed:
  "decode_datagram (\<lambda>i. replicate 8 0) [1, 0, 0, 0, 2, 0, 0, 0, 1, 1, 0xAA, 0, 0, 0, 2]
      = Some \<lparr>dec_error = True,
              dec_frames = [\<lparr>can_id = 1, can_dlc = 1, data = [0xAA, 0, 0, 0, 0, 0, 0, 0]\<rparr>]\<rparr>
   \<and> socket_ready (\<lambda>i. replicate 8 0) \<lparr>sin_port = 20000, sin_addr = 0x0A000001\<rparr>
        (Received \<lparr>sin_port = 20000, sin_addr = 0x0A000001\<rparr>
           [1, 0, 0, 0, 2, 0, 0, 0, 1, 1, 0xAA, 0, 0, 0, 2])
      = Handed [\<lparr>can_id = 1, can_dlc = 1, data = [0xAA, 0, 0, 0, 0, 0, 0, 0]\<rparr>]
   \<and> map_option c_frameBuffer (hand_over 10
        (socket_ready (\<lambda>i. replicate 8 0) \<lparr>sin_port = 20000, sin_addr = 0x0A000001\<rparr>
          (Received \<lparr>sin_port = 20000, sin_addr = 0x0A000001\<rparr>
             [1, 0, 0, 0, 2, 0, 0, 0, 1, 1, 0xAA, 0, 0, 0, 2]))
        \<lparr>c_frameBuffer = [], c_timer_log = []\<rparr>)
      = Some [\<lparr>can_id = 1, can_dlc = 1, data = [0xAA, 0, 0, 0, 0, 0, 0, 0]\<rparr>]"
proof -
  have e: "decode_datagram (\<lambda>i. replicate 8 0) [1, 0, 0, 0, 2, 0, 0, 0, 1, 1, 0xAA, 0, 0, 0, 2]
      = Some \<lparr>dec_error = True,
              dec_frames = [\<lparr>can_id = 1, can_dlc = 1, data = [0xAA, 0, 0, 0, 0, 0, 0, 0]\<rparr>]\<rparr>"
    by code_simp
  have r: "socket_ready (\<lambda>i. replicate 8 0) \<lparr>sin_port = 20000, sin_addr = 0x0A000001\<rparr>
        (Received \<lparr>sin_port = 20000, sin_addr = 0x0A000001\<rparr>
           [1, 0, 0, 0, 2, 0, 0, 0, 1, 1, 0xAA, 0, 0, 0, 2])
      = Handed [\<lparr>can_id = 1, can_dlc = 1, data = [0xAA, 0, 0, 0, 0, 0, 0, 0]\<rparr>]"
    by code_simp
  show ?thesis
    unfolding r using e
    by (simp add: hand_over_def transmitCANFrames_def CAN_fireTimer_def)
qed



text \<open>
  C10. The source filter compares the IPv4 address only. A datagram that carries at least
  one byte is dropped as coming from an unexpected source exactly when its source address
  differs from the configured remote address; coming from the remote address, with any
  source port, it passes the filter and is handled by its content alone: dropped for its
  header, or decoded, with the frames handed over where the decoding is defined.
\<close>

theorem source_filter_address_only:
  assumes "dg \<noteq> []"
  shows "(socket_ready junk remote (Received client dg) = UnexpectedSource)
           = (sin_addr client \<noteq> sin_addr remote)
       \<and> socket_ready junk remote (Received \<lparr>sin_port = port, sin_addr = sin_addr remote\<rparr> dg)
           = (if header_drop dg then DroppedHeader
              else case decode_datagram junk dg of
                     None \<Rightarrow> Undefined
                   | Some d \<Rightarrow> Handed (dec_frames d))"
  using assms
  by (simp add: socket_ready_def inet_ntop_always decode_and_hand_def split: option.split)

theorem source_filter_address_only_witness:
  "[1, 0, 7, 0, 1, 0, 0, 1, 0x23, 2, 0xDE, 0xAD] \<noteq> ([] :: byte list)
   \<and> ((socket_ready (\<lambda>i. replicate 8 0) \<lparr>sin_port = 20000, sin_addr = 0x0A000001\<rparr>
          (Received \<lparr>sin_port = 4711, sin_addr = 0x0A000002\<rparr>
             [1, 0, 7, 0, 1, 0, 0, 1, 0x23, 2, 0xDE, 0xAD]) = UnexpectedSource)
        = (sin_addr \<lparr>sin_port = 4711, sin_addr = 0x0A000002\<rparr>
             \<noteq> sin_addr \<lparr>sin_port = 20000, sin_addr = 0x0A000001\<rparr>)
      \<and> socket_ready (\<lambda>i. replicate 8 0) \<lparr>sin_port = 20000, sin_addr = 0x0A000001\<rparr>
          (Received \<lparr>sin_port = 4711, sin_addr = sin_addr \<lparr>sin_port = 20000, sin_addr = 0x0A000001\<rparr>\<rparr>
             [1, 0, 7, 0, 1, 0, 0, 1, 0x23, 2, 0xDE, 0xAD])
        = (if header_drop [1, 0, 7, 0, 1, 0, 0, 1, 0x23, 2, 0xDE, 0xAD] then DroppedHeader
           else case decode_datagram (\<lambda>i. replicate 8 0)
                       [1, 0, 7, 0, 1, 0, 0, 1, 0x23, 2, 0xDE, 0xAD] of
                  None \<Rightarrow> Undefined
                | Some d \<Rightarrow> Handed (dec_frames d)))
   \<and> socket_ready (\<lambda>i. replicate 8 0) \<lparr>sin_port = 20000, sin_addr = 0x0A000001\<rparr>
        (Received \<lparr>sin_port = 4711, sin_addr = 0x0A000001\<rparr>
           [1, 0, 7, 0, 1, 0, 0, 1, 0x23, 2, 0xDE, 0xAD])
      = Handed [\<lparr>can_id = 0x123, can_dlc = 2, data = [0xDE, 0xAD, 0, 0, 0, 0, 0, 0]\<rparr>]"
proof -
  have h: "[1, 0, 7, 0, 1, 0, 0, 1, 0x23, 2, 0xDE, 0xAD] \<noteq> ([] :: byte list)"
    by simp
  have v: "socket_ready (\<lambda>i. replicate 8 0) \<lparr>sin_port = 20000, sin_addr = 0x0A000001\<rparr>
        (Received \<lparr>sin_port = 4711, sin_addr = 0x0A000001\<rparr>
           [1, 0, 7, 0, 1, 0, 0, 1, 0x23, 2, 0xDE, 0xAD])
      = Handed [\<lparr>can_id = 0x123, can_dlc = 2, data = [0xDE, 0xAD, 0, 0, 0, 0, 0, 0]\<rparr>]"
    by code_simp
  show ?thesis
    by (intro conjI h v source_filter_address_only [OF h, THEN conjunct1]
        source_filter_address_only [OF h, THEN conjunct2])
qed

section \<open>Properties of the pool, the buffers and the timer\<close>

lemma alloc_slots_fields [simp]:
  "m_frameBuffer (alloc_slots n s) = m_frameBuffer s"
  "m_frameBuffer_trans (alloc_slots n s) = m_frameBuffer_trans s"
  "m_frameBufferSize (alloc_slots n s) = m_frameBufferSize s"
  "m_frameBufferSize_trans (alloc_slots n s) = m_frameBufferSize_trans s"
  "m_totalAllocCount (alloc_slots n s) = m_totalAllocCount s"
  "m_sequenceNumber (alloc_slots n s) = m_sequenceNumber s"
  "m_timeout (alloc_slots n s) = m_timeout s"
  "udp_out (alloc_slots n s) = udp_out s"
  "timer_log (alloc_slots n s) = timer_log s"
  by (induction n arbitrary: s; simp)+

lemma alloc_slots_pool [simp]:
  "length (m_framePool (alloc_slots n s)) = length (m_framePool s) + n"
  by (induction n arbitrary: s) simp_all

lemma seal_and_send_fields [simp]:
  "m_framePool (seal_and_send sendto body c s) = m_framePool s"
  "m_frameBuffer (seal_and_send sendto body c s) = m_frameBuffer s"
  "m_frameBuffer_trans (seal_and_send sendto body c s) = m_frameBuffer_trans s"
  "m_frameBufferSize (seal_and_send sendto body c s) = m_frameBufferSize s"
  "m_frameBufferSize_trans (seal_and_send sendto body c s) = m_frameBufferSize_trans s"
  "m_totalAllocCount (seal_and_send sendto body c s) = m_totalAllocCount s"
  "m_timeout (seal_and_send sendto body c s) = m_timeout s"
  "timer_log (seal_and_send sendto body c s) = timer_log s"
  by (simp_all add: seal_and_send_def Let_def)

lemma seal_and_send_out [simp]:
  "udp_out (seal_and_send sendto body c s)
     = udp_out s @ [[CANNELLONI_FRAME_VERSION, DATA, m_sequenceNumber s] @ htons_bytes c @ body]"
  "m_sequenceNumber (seal_and_send sendto body c s) = m_sequenceNumber s + 1"
  by (simp_all add: seal_and_send_def Let_def)

lemma encode_loop_fields:
  assumes "encode_loop sendto fs body c s = Some (body', c', s')"
  shows "m_framePool s' = m_framePool s \<and> m_frameBuffer s' = m_frameBuffer s
       \<and> m_frameBuffer_trans s' = m_frameBuffer_trans s
       \<and> m_frameBufferSize s' = m_frameBufferSize s
       \<and> m_frameBufferSize_trans s' = m_frameBufferSize_trans s
       \<and> m_totalAllocCount s' = m_totalAllocCount s
       \<and> m_timeout s' = m_timeout s \<and> timer_log s' = timer_log s"
  using assms
proof (induction fs arbitrary: body c s)
  case Nil
  then show ?case by simp
next
  case (Cons f fs)
  from Cons.prems show ?case
    by (auto simp: Let_def split: if_splits dest!: Cons.IH)
qed

lemma emit_frames_fields:
  assumes "emit_frames sendto fs s = Some s'"
  shows "m_framePool s' = m_framePool s \<and> m_frameBuffer s' = m_frameBuffer s
       \<and> m_frameBuffer_trans s' = m_frameBuffer_trans s
       \<and> m_frameBufferSize s' = m_frameBufferSize s
       \<and> m_frameBufferSize_trans s' = m_frameBufferSize_trans s
       \<and> m_totalAllocCount s' = m_totalAllocCount s
       \<and> m_timeout s' = m_timeout s \<and> timer_log s' = timer_log s"
  using assms
  by (auto simp: emit_frames_def split: option.splits dest!: encode_loop_fields)

lemma length_insert_comp [simp]: "length (insert_comp cmp x ys) = Suc (length ys)"
  by (induction ys) simp_all

lemma length_list_sort [simp]: "length (list_sort cmp xs) = length xs"
  by (induction xs) (simp_all add: list_sort_def)

lemma length_list_merge [simp]: "length (list_merge xs ys) = length xs + length ys"
  by (induction xs ys rule: list_merge.induct) simp_all

lemma conserved_resizePool: "conserved s \<Longrightarrow> conserved (resizePool sz s)"
  by (simp add: conserved_def resizePool_def Let_def)

lemma conserved_resize_if:
  "conserved s \<Longrightarrow>
   conserved (if m_framePool s = [] then resizePool (of_nat (m_totalAllocCount s)) s else s)"
  by (simp add: conserved_resizePool)

lemma sendCANFrame_Some:
  assumes "sendCANFrame frame s = Some s'"
  obtains s1 poolFrame rest where
    "s1 = (if m_framePool s = [] then resizePool (of_nat (m_totalAllocCount s)) s else s)"
    "m_framePool s1 = poolFrame # rest"
    "s' = (let s3 = s1\<lparr>m_framePool := rest,
                        m_frameBuffer := m_frameBuffer s1 @ [(poolFrame, frame)],
                        m_frameBufferSize :=
                          m_frameBufferSize s1 + CANNELLONI_FRAME_BASE_SIZE + unat (can_dlc frame)\<rparr>
           in if m_frameBufferSize s3 + UDP_DATA_PACKET_BASE_SIZE \<ge> UDP_PAYLOAD_SIZE
              then fireTimer s3 else s3)"
  using assms
  by (auto simp: sendCANFrame_def Let_def split: list.splits)

lemma conserved_sendCANFrame:
  assumes "conserved s" and "sendCANFrame frame s = Some s'"
  shows "conserved s'"
proof -
  from assms(2) obtain s1 poolFrame rest where
    s1: "s1 = (if m_framePool s = [] then resizePool (of_nat (m_totalAllocCount s)) s else s)"
    and pool: "m_framePool s1 = poolFrame # rest"
    and s': "s' = (let s3 = s1\<lparr>m_framePool := rest,
                        m_frameBuffer := m_frameBuffer s1 @ [(poolFrame, frame)],
                        m_frameBufferSize :=
                          m_frameBufferSize s1 + CANNELLONI_FRAME_BASE_SIZE + unat (can_dlc frame)\<rparr>
           in if m_frameBufferSize s3 + UDP_DATA_PACKET_BASE_SIZE \<ge> UDP_PAYLOAD_SIZE
              then fireTimer s3 else s3)"
    by (rule sendCANFrame_Some)
  have "conserved s1"
    unfolding s1 using assms(1) by (rule conserved_resize_if)
  then show ?thesis
    using pool by (simp add: s' conserved_def Let_def fireTimer_def)
qed

lemma conserved_transmitBuffer:
  "conserved s \<Longrightarrow> transmitBuffer cmp sendto s = Some s' \<Longrightarrow> conserved s'"
  by (auto simp: conserved_def transmitBuffer_def Let_def
      split: option.splits dest!: emit_frames_fields)

lemma conserved_clearPool:
  "conserved (clearPool s) = (m_frameBuffer s = [] \<and> m_frameBuffer_trans s = [])"
  by (auto simp: conserved_def clearPool_def)

text \<open>
  C4. The claim: after any completed \<^verbatim>\<open>sendCANFrame\<close>, \<^verbatim>\<open>transmitBuffer\<close>, \<^verbatim>\<open>resizePool\<close> or
  \<^verbatim>\<open>clearPool\<close>, the slots in the pool, the live buffer and the in-flight buffer add up
  to the total allocated. As amended: \<^verbatim>\<open>resizePool\<close>, every completed \<^verbatim>\<open>sendCANFrame\<close> and
  every completed \<^verbatim>\<open>transmitBuffer\<close> keep the conservation; \<^verbatim>\<open>clearPool\<close> empties the pool
  and sets the total to zero whatever the buffers hold, so after it the conservation holds
  exactly when both buffers are empty.
\<close>

theorem pool_conservation_preserved:
  assumes "conserved s"
  shows "conserved (resizePool sz s)
       \<and> (\<forall>frame s'. sendCANFrame frame s = Some s' \<longrightarrow> conserved s')
       \<and> (\<forall>cmp sendto s'. transmitBuffer cmp sendto s = Some s' \<longrightarrow> conserved s')
       \<and> (conserved (clearPool s) = (m_frameBuffer s = [] \<and> m_frameBuffer_trans s = []))"
  using assms
  by (auto simp: conserved_resizePool conserved_clearPool
      intro: conserved_sendCANFrame conserved_transmitBuffer)

theorem pool_conservation_preserved_witness:
  "conserved (resizePool 1 sample_thread)
   \<and> conserved (resizePool 2 (resizePool 1 sample_thread))
   \<and> sendCANFrame sample_frame_a (resizePool 1 sample_thread) \<noteq> None
   \<and> conserved (the (sendCANFrame sample_frame_a (resizePool 1 sample_thread)))
   \<and> transmitBuffer sample_comp sendto_all (resizePool 1 sample_thread) \<noteq> None
   \<and> conserved (the (transmitBuffer sample_comp sendto_all (resizePool 1 sample_thread)))
   \<and> conserved (clearPool (resizePool 1 sample_thread))"
proof -
  have h: "conserved (resizePool 1 sample_thread)"
    by code_simp
  have e1: "sendCANFrame sample_frame_a (resizePool 1 sample_thread) \<noteq> None"
    by code_simp
  have e2: "transmitBuffer sample_comp sendto_all (resizePool 1 sample_thread) \<noteq> None"
    by code_simp
  have e3: "m_frameBuffer (resizePool 1 sample_thread) = []
            \<and> m_frameBuffer_trans (resizePool 1 sample_thread) = []"
    by code_simp
  show ?thesis
    using h e1 e2 e3 pool_conservation_preserved [OF h, of 2] by auto
qed

text \<open>
  C4, as stated, fails for \<^verbatim>\<open>clearPool\<close>: a worker with one slot that has admitted one frame
  conserves its slots, and after \<^verbatim>\<open>clearPool\<close> the live buffer still holds the slot while
  the total is zero.
\<close>

theorem clearPool_loses_buffered_slots:
  "conserved (resizePool 1 sample_thread)
   \<and> sendCANFrame sample_frame_a (resizePool 1 sample_thread) \<noteq> None
   \<and> conserved (the (sendCANFrame sample_frame_a (resizePool 1 sample_thread)))
   \<and> \<not> conserved (clearPool (the (sendCANFrame sample_frame_a (resizePool 1 sample_thread))))"
  by code_simp

lemma buffer_wire_size_simps [simp]:
  "buffer_wire_size [] = 0"
  "buffer_wire_size (f # fs) = frame_wire_size f + buffer_wire_size fs"
  "buffer_wire_size (fs @ gs) = buffer_wire_size fs + buffer_wire_size gs"
  by (simp_all add: buffer_wire_size_def)

lemma reachable_sizes:
  "reachable s \<Longrightarrow>
     m_frameBufferSize s = buffer_wire_size (map snd (m_frameBuffer s))
   \<and> m_frameBufferSize_trans s = buffer_wire_size (map snd (m_frameBuffer_trans s))"
proof (induction rule: reachable.induct)
  case (reach_new remoteAddr localAddr total0 slot0)
  show ?case by (simp add: UDPThread_def)
next
  case (reach_resizePool s sz)
  then show ?case by (simp add: resizePool_def Let_def)
next
  case (reach_clearPool s)
  then show ?case by (simp add: clearPool_def)
next
  case (reach_setTimeout s timeout)
  then show ?case by (simp add: setTimeout_def)
next
  case (reach_sendCANFrame s frame s')
  from reach_sendCANFrame.hyps(2) obtain s1 poolFrame rest where
    s1: "s1 = (if m_framePool s = [] then resizePool (of_nat (m_totalAllocCount s)) s else s)"
    and s': "s' = (let s3 = s1\<lparr>m_framePool := rest,
                        m_frameBuffer := m_frameBuffer s1 @ [(poolFrame, frame)],
                        m_frameBufferSize :=
                          m_frameBufferSize s1 + CANNELLONI_FRAME_BASE_SIZE + unat (can_dlc frame)\<rparr>
           in if m_frameBufferSize s3 + UDP_DATA_PACKET_BASE_SIZE \<ge> UDP_PAYLOAD_SIZE
              then fireTimer s3 else s3)"
    by (rule sendCANFrame_Some)
  from reach_sendCANFrame.IH show ?case
    by (simp add: s' s1 Let_def fireTimer_def resizePool_def frame_wire_size_def)
next
  case (reach_transmitBuffer s cmp sendto s')
  from reach_transmitBuffer.hyps(2) reach_transmitBuffer.IH show ?case
    by (auto simp: transmitBuffer_def Let_def split: option.splits dest!: emit_frames_fields)
next
  case (reach_socket_ready s junk r out s')
  then show ?case
    by (auto simp: udp_socket_ready_def Let_def split: rx_outcome.splits)
qed

text \<open>
  C5. Wire-size accuracy: in every state the worker reaches by completed operations, the
  live size counter is the sum of \<open>CANNELLONI_FRAME_BASE_SIZE + can_dlc\<close> over the frames
  in the live buffer.
\<close>

theorem wire_size_accuracy:
  assumes "reachable s"
  shows "m_frameBufferSize s = buffer_wire_size (map snd (m_frameBuffer s))"
  using reachable_sizes [OF assms] by simp

theorem wire_size_accuracy_witness:
  "reachable (the (sendCANFrame sample_frame_b
               (the (sendCANFrame sample_frame_a (resizePool 2 sample_thread)))))
   \<and> m_frameBufferSize (the (sendCANFrame sample_frame_b
               (the (sendCANFrame sample_frame_a (resizePool 2 sample_thread))))) = 12
   \<and> buffer_wire_size (map snd (m_frameBuffer (the (sendCANFrame sample_frame_b
               (the (sendCANFrame sample_frame_a (resizePool 2 sample_thread))))))) = 12"
proof -
  have r0: "reachable (resizePool 2 sample_thread)"
    unfolding sample_thread_def by (intro reach_resizePool reach_new)
  have e1: "sendCANFrame sample_frame_a (resizePool 2 sample_thread)
              = Some (the (sendCANFrame sample_frame_a (resizePool 2 sample_thread)))"
    by code_simp
  have e2: "sendCANFrame sample_frame_b (the (sendCANFrame sample_frame_a (resizePool 2 sample_thread)))
              = Some (the (sendCANFrame sample_frame_b
                       (the (sendCANFrame sample_frame_a (resizePool 2 sample_thread)))))"
    by code_simp
  have r: "reachable (the (sendCANFrame sample_frame_b
               (the (sendCANFrame sample_frame_a (resizePool 2 sample_thread)))))"
    by (rule reach_sendCANFrame [OF reach_sendCANFrame [OF r0 e1] e2])
  have v: "m_frameBufferSize (the (sendCANFrame sample_frame_b
               (the (sendCANFrame sample_frame_a (resizePool 2 sample_thread))))) = 12"
    by code_simp
  show ?thesis
    using r v wire_size_accuracy [OF r] by simp
qed

text \<open>
  \<^verbatim>\<open>sendCANFrame\<close> completes whenever the pool holds a slot, or the total is not a multiple
  of \<open>2 ^ 32\<close>, so that the resize adds one.
\<close>

lemma sendCANFrame_completes:
  assumes "m_framePool s \<noteq> [] \<or> 0 < unat (of_nat (m_totalAllocCount s) :: 32 word)"
  shows "\<exists>s'. sendCANFrame frame s = Some s'"
proof (cases "m_framePool s")
  case Nil
  with assms have "0 < unat (of_nat (m_totalAllocCount s) :: 32 word)"
    by simp
  then have "0 < length (m_framePool (resizePool (of_nat (m_totalAllocCount s)) s))"
    by (simp add: resizePool_def Let_def)
  then obtain p rest where
    "m_framePool (resizePool (of_nat (m_totalAllocCount s)) s) = p # rest"
    by (cases "m_framePool (resizePool (of_nat (m_totalAllocCount s)) s)") auto
  then show ?thesis
    using Nil by (simp add: sendCANFrame_def Let_def)
next
  case (Cons p rest)
  then show ?thesis
    by (simp add: sendCANFrame_def Let_def)
qed

text \<open>
  C6. A completed \<^verbatim>\<open>sendCANFrame\<close> adds \<open>CANNELLONI_FRAME_BASE_SIZE + can_dlc\<close> to the size
  counter, and it re-arms the timer (one more \<^verbatim>\<open>timerfd_settime\<close>, to expire after 1000 ns
  with the interval of the configured timeout) if and only if the new counter plus
  \<open>UDP_DATA_PACKET_BASE_SIZE\<close> is at least \<open>UDP_PAYLOAD_SIZE\<close>.
\<close>

theorem sendCANFrame_fires_timer:
  assumes "sendCANFrame frame s = Some s'"
  shows "m_frameBufferSize s'
           = m_frameBufferSize s + CANNELLONI_FRAME_BASE_SIZE + unat (can_dlc frame)
       \<and> (length (timer_log s') = Suc (length (timer_log s)))
           = (m_frameBufferSize s' + UDP_DATA_PACKET_BASE_SIZE \<ge> UDP_PAYLOAD_SIZE)
       \<and> timer_log s'
           = (if m_frameBufferSize s' + UDP_DATA_PACKET_BASE_SIZE \<ge> UDP_PAYLOAD_SIZE
              then timer_log s @
                     [\<lparr>it_interval_sec = unat (m_timeout s div 1000),
                       it_interval_nsec = unat ((m_timeout s mod 1000) * 1000000),
                       it_value_sec = 0, it_value_nsec = 1000\<rparr>]
              else timer_log s)"
proof -
  from assms obtain s1 poolFrame rest where
    s1: "s1 = (if m_framePool s = [] then resizePool (of_nat (m_totalAllocCount s)) s else s)"
    and s': "s' = (let s3 = s1\<lparr>m_framePool := rest,
                        m_frameBuffer := m_frameBuffer s1 @ [(poolFrame, frame)],
                        m_frameBufferSize :=
                          m_frameBufferSize s1 + CANNELLONI_FRAME_BASE_SIZE + unat (can_dlc frame)\<rparr>
           in if m_frameBufferSize s3 + UDP_DATA_PACKET_BASE_SIZE \<ge> UDP_PAYLOAD_SIZE
              then fireTimer s3 else s3)"
    by (rule sendCANFrame_Some)
  have f: "m_frameBufferSize s1 = m_frameBufferSize s" "timer_log s1 = timer_log s"
    "m_timeout s1 = m_timeout s"
    by (simp_all add: s1 resizePool_def Let_def)
  show ?thesis
    by (simp add: s' f Let_def fireTimer_def)
qed

theorem sendCANFrame_fires_timer_witness:
  "sendCANFrame sample_frame_a ((resizePool 1 sample_thread)\<lparr>m_frameBufferSize := 1460\<rparr>) \<noteq> None
   \<and> m_frameBufferSize (the (sendCANFrame sample_frame_a
         ((resizePool 1 sample_thread)\<lparr>m_frameBufferSize := 1460\<rparr>))) = 1467
   \<and> timer_log (the (sendCANFrame sample_frame_a
         ((resizePool 1 sample_thread)\<lparr>m_frameBufferSize := 1460\<rparr>)))
       = [\<lparr>it_interval_sec = 0, it_interval_nsec = 100000000,
           it_value_sec = 0, it_value_nsec = 1000\<rparr>]"
proof -
  let ?X = "(resizePool 1 sample_thread)\<lparr>m_frameBufferSize := 1460\<rparr>"
  let ?Y = "the (sendCANFrame sample_frame_a ?X)"
  have n: "sendCANFrame sample_frame_a ?X \<noteq> None"
    by (simp add: sendCANFrame_def resizePool_def sample_thread_def UDPThread_def Let_def)
  then have e: "sendCANFrame sample_frame_a ?X = Some ?Y"
    by simp
  have t: "timer_log ?X = []" "m_frameBufferSize ?X = 1460" "m_timeout ?X = 100"
    by (simp_all add: resizePool_def sample_thread_def UDPThread_def Let_def)
  have d: "unat (can_dlc sample_frame_a) = 2"
    by (simp add: sample_frame_a_def)
  note c = sendCANFrame_fires_timer [OF e]
  from c have c1: "m_frameBufferSize ?Y = 1467"
    by (simp add: t d CANNELLONI_FRAME_BASE_SIZE_def)
  from c have "timer_log ?Y
           = (if m_frameBufferSize ?Y + UDP_DATA_PACKET_BASE_SIZE \<ge> UDP_PAYLOAD_SIZE
              then timer_log ?X @
                     [\<lparr>it_interval_sec = unat (m_timeout ?X div 1000),
                       it_interval_nsec = unat ((m_timeout ?X mod 1000) * 1000000),
                       it_value_sec = 0, it_value_nsec = 1000\<rparr>]
              else timer_log ?X)"
    by (elim conjE)
  then have c2: "timer_log ?Y = [\<lparr>it_interval_sec = 0, it_interval_nsec = 100000000,
           it_value_sec = 0, it_value_nsec = 1000\<rparr>]"
    by (simp add: c1 t UDP_DATA_PACKET_BASE_SIZE_def UDP_PAYLOAD_SIZE_def)
  show ?thesis
    using n c1 c2 by (intro conjI)
qed

lemma pkt_seq_no_sealed [simp]:
  "pkt_seq_no (v # d # sq # rest) = sq"
  by (simp add: pkt_seq_no_def buffer_at_def)

lemma seq_inv_seal: "seq_inv s \<Longrightarrow> seq_inv (seal_and_send sendto body c s)"
  by (simp add: seq_inv_def)

lemma seq_inv_encode_loop:
  "seq_inv s \<Longrightarrow> encode_loop sendto fs body c s = Some (body', c', s') \<Longrightarrow> seq_inv s'"
proof (induction fs arbitrary: body c s)
  case Nil
  then show ?case by simp
next
  case (Cons f fs)
  from Cons.prems(2) show ?case
    by (auto simp: Let_def split: if_splits
        intro: Cons.IH [OF seq_inv_seal [OF Cons.prems(1)]] Cons.IH [OF Cons.prems(1)])
qed

lemma seq_inv_emit: "seq_inv s \<Longrightarrow> emit_frames sendto fs s = Some s' \<Longrightarrow> seq_inv s'"
  by (auto simp: emit_frames_def split: option.splits intro: seq_inv_seal seq_inv_encode_loop)

lemma seq_inv_cong:
  "udp_out s' = udp_out s \<Longrightarrow> m_sequenceNumber s' = m_sequenceNumber s \<Longrightarrow> seq_inv s \<Longrightarrow> seq_inv s'"
  by (simp add: seq_inv_def)

lemma reachable_seq_inv: "reachable s \<Longrightarrow> seq_inv s"
proof (induction rule: reachable.induct)
  case (reach_new remoteAddr localAddr total0 slot0)
  show ?case by (simp add: UDPThread_def seq_inv_def)
next
  case (reach_resizePool s sz)
  then show ?case by (simp add: resizePool_def Let_def seq_inv_def)
next
  case (reach_clearPool s)
  then show ?case by (simp add: clearPool_def seq_inv_def)
next
  case (reach_setTimeout s timeout)
  then show ?case by (simp add: setTimeout_def seq_inv_def)
next
  case (reach_sendCANFrame s frame s')
  from reach_sendCANFrame.hyps(2) obtain s1 poolFrame rest where
    s1: "s1 = (if m_framePool s = [] then resizePool (of_nat (m_totalAllocCount s)) s else s)"
    and s': "s' = (let s3 = s1\<lparr>m_framePool := rest,
                        m_frameBuffer := m_frameBuffer s1 @ [(poolFrame, frame)],
                        m_frameBufferSize :=
                          m_frameBufferSize s1 + CANNELLONI_FRAME_BASE_SIZE + unat (can_dlc frame)\<rparr>
           in if m_frameBufferSize s3 + UDP_DATA_PACKET_BASE_SIZE \<ge> UDP_PAYLOAD_SIZE
              then fireTimer s3 else s3)"
    by (rule sendCANFrame_Some)
  have "udp_out s' = udp_out s" "m_sequenceNumber s' = m_sequenceNumber s"
    by (simp_all add: s' s1 Let_def fireTimer_def resizePool_def)
  then show ?case
    using reach_sendCANFrame.IH by (rule seq_inv_cong)
next
  case (reach_transmitBuffer s cmp sendto s')
  let ?s2 = "s\<lparr>m_frameBufferSize := m_frameBufferSize_trans s,
                 m_frameBufferSize_trans := m_frameBufferSize s,
                 m_frameBuffer := m_frameBuffer_trans s,
                 m_frameBuffer_trans :=
                    list_sort (\<lambda>a b. cmp (snd a) (snd b)) (m_frameBuffer s)\<rparr>"
  from reach_transmitBuffer.hyps(2) obtain s3 where
    e: "emit_frames sendto (map snd (m_frameBuffer_trans ?s2)) ?s2 = Some s3"
    and s': "udp_out s' = udp_out s3" "m_sequenceNumber s' = m_sequenceNumber s3"
    by (auto simp: transmitBuffer_def Let_def split: option.splits)
  have "seq_inv ?s2"
    using reach_transmitBuffer.IH by (simp add: seq_inv_def)
  then have "seq_inv s3"
    using e by (rule seq_inv_emit)
  with s' show ?case
    by (rule seq_inv_cong)
next
  case (reach_socket_ready s junk r out s')
  then show ?case
    by (auto simp: udp_socket_ready_def Let_def seq_inv_def split: rx_outcome.splits)
qed

text \<open>
  C8. Sequence monotonicity: among all datagrams the worker has passed to \<^verbatim>\<open>sendto\<close>, in
  one flush or across flushes, each carries the sequence number of its predecessor plus
  one modulo 256, and the counter is one past the number of the last datagram.
\<close>

theorem sequence_numbers_successive:
  assumes "reachable s" and "Suc i < length (udp_out s)"
  shows "pkt_seq_no (udp_out s ! Suc i) = pkt_seq_no (udp_out s ! i) + 1
       \<and> m_sequenceNumber s = pkt_seq_no (last (udp_out s)) + 1"
proof -
  from reachable_seq_inv [OF assms(1)]
  have m: "map pkt_seq_no (udp_out s) = map of_nat [0..<length (udp_out s)]"
    and n: "m_sequenceNumber s = of_nat (length (udp_out s))"
    by (simp_all add: seq_inv_def)
  have nth: "pkt_seq_no (udp_out s ! k) = of_nat k" if "k < length (udp_out s)" for k
  proof -
    have "pkt_seq_no (udp_out s ! k) = map pkt_seq_no (udp_out s) ! k"
      using that by simp
    also have "\<dots> = of_nat k"
      using that by (simp add: m)
    finally show ?thesis .
  qed
  have ne: "udp_out s \<noteq> []"
    using assms(2) by auto
  have "pkt_seq_no (last (udp_out s)) = of_nat (length (udp_out s) - 1)"
    using ne nth [of "length (udp_out s) - 1"] by (simp add: last_conv_nth)
  then have "pkt_seq_no (last (udp_out s)) + 1 = of_nat (Suc (length (udp_out s) - 1))"
    by simp
  then have l: "pkt_seq_no (last (udp_out s)) + 1 = m_sequenceNumber s"
    using ne n by simp
  show ?thesis
    using assms(2) nth [of i] nth [of "Suc i"] l by simp
qed

theorem sequence_numbers_successive_witness:
  "reachable (the (transmitBuffer sample_comp sendto_all
      (the (sendCANFrame sample_frame_b
        (the (transmitBuffer sample_comp sendto_all
          (the (sendCANFrame sample_frame_a (resizePool 2 sample_thread)))))))))
   \<and> udp_out (the (transmitBuffer sample_comp sendto_all
      (the (sendCANFrame sample_frame_b
        (the (transmitBuffer sample_comp sendto_all
          (the (sendCANFrame sample_frame_a (resizePool 2 sample_thread)))))))))
      = [[1, 0, 0, 0, 1, 0, 0, 1, 0x23, 2, 0xDE, 0xAD], [1, 0, 1, 0, 1, 0, 0, 0, 0x42, 0]]
   \<and> pkt_seq_no [1, 0, 1, 0, 1, 0, 0, 0, 0x42, 0]
      = pkt_seq_no [1, 0, 0, 0, 1, 0, 0, 1, 0x23, 2, 0xDE, 0xAD] + 1
   \<and> m_sequenceNumber (the (transmitBuffer sample_comp sendto_all
      (the (sendCANFrame sample_frame_b
        (the (transmitBuffer sample_comp sendto_all
          (the (sendCANFrame sample_frame_a (resizePool 2 sample_thread)))))))))
      = pkt_seq_no [1, 0, 1, 0, 1, 0, 0, 0, 0x42, 0] + 1"
proof -
  let ?s0 = "resizePool 2 sample_thread"
  let ?s1 = "the (sendCANFrame sample_frame_a ?s0)"
  let ?s2 = "the (transmitBuffer sample_comp sendto_all ?s1)"
  let ?s3 = "the (sendCANFrame sample_frame_b ?s2)"
  let ?s4 = "the (transmitBuffer sample_comp sendto_all ?s3)"
  have r0: "reachable ?s0"
    unfolding sample_thread_def by (intro reach_resizePool reach_new)
  have e1: "sendCANFrame sample_frame_a ?s0 = Some ?s1"
    by code_simp
  have e2: "transmitBuffer sample_comp sendto_all ?s1 = Some ?s2"
    by code_simp
  have e3: "sendCANFrame sample_frame_b ?s2 = Some ?s3"
    by code_simp
  have e4: "transmitBuffer sample_comp sendto_all ?s3 = Some ?s4"
    by code_simp
  have r: "reachable ?s4"
    by (rule reach_transmitBuffer [OF reach_sendCANFrame [OF
          reach_transmitBuffer [OF reach_sendCANFrame [OF r0 e1] e2] e3] e4])
  have out: "udp_out ?s4
      = [[1, 0, 0, 0, 1, 0, 0, 1, 0x23, 2, 0xDE, 0xAD], [1, 0, 1, 0, 1, 0, 0, 0, 0x42, 0]]"
    by code_simp
  have i: "Suc 0 < length (udp_out ?s4)"
    by (simp add: out)
  show ?thesis
    using r out sequence_numbers_successive [OF r i] by (simp add: out)
qed

section \<open>Properties of the encoder, the codec and the flush\<close>

lemma length_frame_record:
  "valid_frame f \<Longrightarrow> length (frame_record f) = frame_wire_size f"
  by (simp add: valid_frame_def frame_record_def htonl_bytes_def frame_wire_size_def
      CANNELLONI_FRAME_BASE_SIZE_def)

lemma length_records:
  "list_all valid_frame fs \<Longrightarrow> length (concat (map frame_record fs)) = buffer_wire_size fs"
  by (induction fs) (simp_all add: length_frame_record)

lemma chunks_from_not_Nil [simp]: "chunks_from cur fs \<noteq> []"
  by (induction fs arbitrary: cur) simp_all

lemma concat_chunks_from [simp]: "concat (chunks_from cur fs) = cur @ fs"
  by (induction fs arbitrary: cur) simp_all

lemma length_datagrams [simp]: "length (datagrams sq cs) = length cs"
  by (induction cs arbitrary: sq) simp_all

lemma datagrams_append:
  "datagrams sq (cs @ ds) = datagrams sq cs @ datagrams (sq + of_nat (length cs)) ds"
  by (induction cs arbitrary: sq) (simp_all add: add.assoc add.commute)

lemma encode_loop_chunks:
  assumes "list_all valid_frame fs" and "list_all valid_frame cur"
  shows "\<exists>s'. encode_loop sendto fs (concat (map frame_record cur)) (of_nat (length cur)) s
                = Some (concat (map frame_record (last (chunks_from cur fs))),
                        of_nat (length (last (chunks_from cur fs))), s')
            \<and> udp_out s' = udp_out s @ datagrams (m_sequenceNumber s) (butlast (chunks_from cur fs))
            \<and> m_sequenceNumber s' + 1
                = m_sequenceNumber s + of_nat (length (chunks_from cur fs))"
  using assms
proof (induction fs arbitrary: cur s)
  case Nil
  show ?case by simp
next
  case (Cons f fs)
  from Cons.prems have vf: "valid_frame f" and vfs: "list_all valid_frame fs"
    by simp_all
  have dlc: "\<not> 8 < unat (can_dlc f)"
    using vf by (simp add: valid_frame_def)
  have len: "length (concat (map frame_record cur)) = buffer_wire_size cur"
    using Cons.prems(2) by (rule length_records)
  show ?case
  proof (cases "UDP_DATA_PACKET_BASE_SIZE + buffer_wire_size cur + frame_wire_size f
                  > UDP_PAYLOAD_SIZE")
    case True
    let ?s1 = "seal_and_send sendto (concat (map frame_record cur)) (of_nat (length cur)) s"
    from Cons.IH [OF vfs, of "[f]" ?s1] vf
    obtain s' where
      l: "encode_loop sendto fs (frame_record f) 1 ?s1
            = Some (concat (map frame_record (last (chunks_from [f] fs))),
                    of_nat (length (last (chunks_from [f] fs))), s')"
      and o: "udp_out s' = udp_out ?s1 @ datagrams (m_sequenceNumber ?s1) (butlast (chunks_from [f] fs))"
      and q: "m_sequenceNumber s' + 1 = m_sequenceNumber ?s1 + of_nat (length (chunks_from [f] fs))"
      by auto
    have st: "encode_loop sendto (f # fs) (concat (map frame_record cur)) (of_nat (length cur)) s
            = encode_loop sendto fs (frame_record f) 1 ?s1"
      using True dlc len by (simp add: Let_def frame_wire_size_def add.assoc)
    show ?thesis
      unfolding st using True l o q
      by (simp add: datagram_def add.assoc [where 'a = "8 word"])
  next
    case False
    from Cons.IH [OF vfs, of "cur @ [f]" s] vf Cons.prems(2)
    obtain s' where
      l: "encode_loop sendto fs (concat (map frame_record cur) @ frame_record f)
             (of_nat (length cur) + 1) s
            = Some (concat (map frame_record (last (chunks_from (cur @ [f]) fs))),
                    of_nat (length (last (chunks_from (cur @ [f]) fs))), s')"
      and o: "udp_out s' = udp_out s @ datagrams (m_sequenceNumber s) (butlast (chunks_from (cur @ [f]) fs))"
      and q: "m_sequenceNumber s' + 1 = m_sequenceNumber s + of_nat (length (chunks_from (cur @ [f]) fs))"
      by (auto simp: add.commute)
    have st: "encode_loop sendto (f # fs) (concat (map frame_record cur)) (of_nat (length cur)) s
            = encode_loop sendto fs (concat (map frame_record cur) @ frame_record f)
                (of_nat (length cur) + 1) s"
      using False dlc len by (simp add: Let_def frame_wire_size_def add.assoc)
    show ?thesis
      unfolding st using False l o q by simp
  qed
qed

lemma emit_frames_chunks:
  assumes "list_all valid_frame fs"
  shows "\<exists>s'. emit_frames sendto fs s = Some s'
            \<and> udp_out s' = udp_out s @ datagrams (m_sequenceNumber s) (chunks_from [] fs)"
proof -
  from encode_loop_chunks [OF assms, of "[]" sendto s]
  obtain s1 where
    l: "encode_loop sendto fs [] 0 s
          = Some (concat (map frame_record (last (chunks_from [] fs))),
                  of_nat (length (last (chunks_from [] fs))), s1)"
    and o: "udp_out s1 = udp_out s @ datagrams (m_sequenceNumber s) (butlast (chunks_from [] fs))"
    and q1: "m_sequenceNumber s1 + 1 = m_sequenceNumber s + of_nat (length (chunks_from [] fs))"
    by auto
  obtain n where n: "length (chunks_from [] fs) = Suc n"
    by (cases "chunks_from [] fs") auto
  then have "m_sequenceNumber s1 + 1 = (m_sequenceNumber s + of_nat n) + 1"
    using q1 by simp
  then have "m_sequenceNumber s1 = m_sequenceNumber s + of_nat n"
    by (simp only: add_right_cancel)
  then have q: "m_sequenceNumber s1 = m_sequenceNumber s + of_nat (length (butlast (chunks_from [] fs)))"
    using n by simp
  have "datagrams (m_sequenceNumber s) (chunks_from [] fs)
          = datagrams (m_sequenceNumber s) (butlast (chunks_from [] fs) @ [last (chunks_from [] fs)])"
    by simp
  also have "\<dots> = datagrams (m_sequenceNumber s) (butlast (chunks_from [] fs))
            @ [datagram (m_sequenceNumber s1) (last (chunks_from [] fs))]"
    unfolding datagrams_append by (simp add: q)
  finally have "udp_out s @ datagrams (m_sequenceNumber s) (chunks_from [] fs)
          = udp_out s1 @ [datagram (m_sequenceNumber s1) (last (chunks_from [] fs))]"
    by (simp add: o)
  then show ?thesis
    by (simp add: emit_frames_def l datagram_def)
qed

lemma chunks_from_fit:
  "UDP_DATA_PACKET_BASE_SIZE + buffer_wire_size cur + buffer_wire_size fs \<le> UDP_PAYLOAD_SIZE
   \<Longrightarrow> chunks_from cur fs = [cur @ fs]"
  by (induction fs arbitrary: cur) simp_all

lemma length_chunks_from_pos: "Suc 0 \<le> length (chunks_from cur fs)"
  by (cases "chunks_from cur fs") simp_all

lemma chunks_from_overflow:
  "UDP_DATA_PACKET_BASE_SIZE + buffer_wire_size cur \<le> UDP_PAYLOAD_SIZE
   \<Longrightarrow> UDP_DATA_PACKET_BASE_SIZE + buffer_wire_size cur + buffer_wire_size fs > UDP_PAYLOAD_SIZE
   \<Longrightarrow> 2 \<le> length (chunks_from cur fs)"
proof (induction fs arbitrary: cur)
  case Nil
  then show ?case by simp
next
  case (Cons f fs)
  show ?case
  proof (cases "UDP_DATA_PACKET_BASE_SIZE + buffer_wire_size cur + frame_wire_size f
                  > UDP_PAYLOAD_SIZE")
    case True
    then show ?thesis
      by (simp add: length_chunks_from_pos)
  next
    case False
    then show ?thesis
      using Cons.IH [of "cur @ [f]"] Cons.prems by simp
  qed
qed

lemma valid_frame_wire_size: "valid_frame f \<Longrightarrow> frame_wire_size f \<le> 13"
  by (simp add: valid_frame_def frame_wire_size_def CANNELLONI_FRAME_BASE_SIZE_def)

lemma chunks_from_each_fit:
  "UDP_DATA_PACKET_BASE_SIZE + buffer_wire_size cur \<le> UDP_PAYLOAD_SIZE
   \<Longrightarrow> list_all valid_frame fs
   \<Longrightarrow> list_all (\<lambda>c. UDP_DATA_PACKET_BASE_SIZE + buffer_wire_size c \<le> UDP_PAYLOAD_SIZE)
         (chunks_from cur fs)"
proof (induction fs arbitrary: cur)
  case Nil
  then show ?case by simp
next
  case (Cons f fs)
  from Cons.prems(2) have "frame_wire_size f \<le> 13"
    by (simp add: valid_frame_wire_size)
  then have one: "UDP_DATA_PACKET_BASE_SIZE + buffer_wire_size [f] \<le> UDP_PAYLOAD_SIZE"
    by (simp add: UDP_DATA_PACKET_BASE_SIZE_def UDP_PAYLOAD_SIZE_def)
  show ?case
    using Cons.IH [of "[f]"] Cons.IH [of "cur @ [f]"] Cons.prems one by simp
qed

lemma chunks_from_valid:
  "list_all valid_frame cur \<Longrightarrow> list_all valid_frame fs
   \<Longrightarrow> list_all (list_all valid_frame) (chunks_from cur fs)"
  by (induction fs arbitrary: cur) simp_all

lemma length_datagram:
  "list_all valid_frame c \<Longrightarrow> length (datagram sq c) = UDP_DATA_PACKET_BASE_SIZE + buffer_wire_size c"
  by (simp add: datagram_def htons_bytes_def length_records UDP_DATA_PACKET_BASE_SIZE_def)

lemma datagrams_fit:
  "list_all (list_all valid_frame) cs
   \<Longrightarrow> list_all (\<lambda>c. UDP_DATA_PACKET_BASE_SIZE + buffer_wire_size c \<le> UDP_PAYLOAD_SIZE) cs
   \<Longrightarrow> list_all (\<lambda>dg. length dg \<le> UDP_PAYLOAD_SIZE) (datagrams sq cs)"
  by (induction cs arbitrary: sq) (simp_all add: length_datagram)

text \<open>
  C7. Exact-fit boundary. For valid frames, the loop and the final send of
  \<^verbatim>\<open>transmitBuffer\<close> emit the datagrams of consecutive pieces of the batch, whole frames
  only, each datagram within \<open>UDP_PAYLOAD_SIZE\<close>. A batch whose records take at most
  \<open>UDP_PAYLOAD_SIZE - UDP_DATA_PACKET_BASE_SIZE\<close> bytes, and so one that takes exactly that
  many, goes out as one datagram; a batch that takes at least one byte more goes out as at
  least two.
\<close>

theorem exact_fit_boundary:
  assumes "list_all valid_frame fs"
  shows "\<exists>s' chunks. emit_frames sendto fs s = Some s'
           \<and> udp_out s' = udp_out s @ datagrams (m_sequenceNumber s) chunks
           \<and> concat chunks = fs
           \<and> list_all (\<lambda>dg. length dg \<le> UDP_PAYLOAD_SIZE) (datagrams (m_sequenceNumber s) chunks)
           \<and> (buffer_wire_size fs \<le> UDP_PAYLOAD_SIZE - UDP_DATA_PACKET_BASE_SIZE
                \<longrightarrow> length chunks = 1)
           \<and> (buffer_wire_size fs > UDP_PAYLOAD_SIZE - UDP_DATA_PACKET_BASE_SIZE
                \<longrightarrow> 2 \<le> length chunks)"
proof -
  let ?cs = "chunks_from [] fs"
  from emit_frames_chunks [OF assms, of sendto s] obtain s' where
    e: "emit_frames sendto fs s = Some s'"
    and o: "udp_out s' = udp_out s @ datagrams (m_sequenceNumber s) ?cs"
    by auto
  have base: "UDP_DATA_PACKET_BASE_SIZE + buffer_wire_size [] \<le> UDP_PAYLOAD_SIZE"
    by (simp add: UDP_DATA_PACKET_BASE_SIZE_def UDP_PAYLOAD_SIZE_def)
  have fit: "list_all (\<lambda>dg. length dg \<le> UDP_PAYLOAD_SIZE) (datagrams (m_sequenceNumber s) ?cs)"
    using assms base by (intro datagrams_fit chunks_from_valid chunks_from_each_fit) simp_all
  have one: "length ?cs = 1"
    if "buffer_wire_size fs \<le> UDP_PAYLOAD_SIZE - UDP_DATA_PACKET_BASE_SIZE"
    using that chunks_from_fit [of "[]" fs]
    by (simp add: UDP_DATA_PACKET_BASE_SIZE_def UDP_PAYLOAD_SIZE_def)
  have two: "2 \<le> length ?cs"
    if "buffer_wire_size fs > UDP_PAYLOAD_SIZE - UDP_DATA_PACKET_BASE_SIZE"
    using that chunks_from_overflow [of "[]" fs]
    by (simp add: UDP_DATA_PACKET_BASE_SIZE_def UDP_PAYLOAD_SIZE_def)
  show ?thesis
    using e o fit one two
    by (intro exI [of _ s'] exI [of _ ?cs]) simp
qed

theorem exact_fit_boundary_witness:
  "list_all valid_frame (replicate 112 sample_frame_8 @ [sample_frame_6])
   \<and> buffer_wire_size (replicate 112 sample_frame_8 @ [sample_frame_6])
       = UDP_PAYLOAD_SIZE - UDP_DATA_PACKET_BASE_SIZE
   \<and> (\<exists>s' chunks.
         emit_frames sendto_all (replicate 112 sample_frame_8 @ [sample_frame_6]) sample_thread = Some s'
       \<and> udp_out s' = udp_out sample_thread @ datagrams (m_sequenceNumber sample_thread) chunks
       \<and> concat chunks = replicate 112 sample_frame_8 @ [sample_frame_6]
       \<and> length chunks = 1)
   \<and> list_all valid_frame (replicate 112 sample_frame_8 @ [sample_frame_7])
   \<and> buffer_wire_size (replicate 112 sample_frame_8 @ [sample_frame_7])
       = UDP_PAYLOAD_SIZE - UDP_DATA_PACKET_BASE_SIZE + 1
   \<and> (\<exists>s' chunks.
         emit_frames sendto_all (replicate 112 sample_frame_8 @ [sample_frame_7]) sample_thread = Some s'
       \<and> udp_out s' = udp_out sample_thread @ datagrams (m_sequenceNumber sample_thread) chunks
       \<and> concat chunks = replicate 112 sample_frame_8 @ [sample_frame_7]
       \<and> 2 \<le> length chunks)"
proof -
  have v8: "valid_frame sample_frame_8" and v6: "valid_frame sample_frame_6"
    and v7: "valid_frame sample_frame_7"
    by (simp_all add: valid_frame_def sample_frame_8_def sample_frame_6_def sample_frame_7_def)
  have w8: "frame_wire_size sample_frame_8 = 13" and w6: "frame_wire_size sample_frame_6 = 11"
    and w7: "frame_wire_size sample_frame_7 = 12"
    by (simp_all add: frame_wire_size_def CANNELLONI_FRAME_BASE_SIZE_def
        sample_frame_8_def sample_frame_6_def sample_frame_7_def)
  have h1: "list_all valid_frame (replicate 112 sample_frame_8 @ [sample_frame_6])"
    using v8 v6 by (simp add: list_all_iff)
  have h2: "list_all valid_frame (replicate 112 sample_frame_8 @ [sample_frame_7])"
    using v8 v7 by (simp add: list_all_iff)
  have s1: "buffer_wire_size (replicate 112 sample_frame_8 @ [sample_frame_6])
       = UDP_PAYLOAD_SIZE - UDP_DATA_PACKET_BASE_SIZE"
    by (simp add: buffer_wire_size_def sum_list_replicate w8 w6
        UDP_PAYLOAD_SIZE_def UDP_DATA_PACKET_BASE_SIZE_def)
  have s2: "buffer_wire_size (replicate 112 sample_frame_8 @ [sample_frame_7])
       = UDP_PAYLOAD_SIZE - UDP_DATA_PACKET_BASE_SIZE + 1"
    by (simp add: buffer_wire_size_def sum_list_replicate w8 w7
        UDP_PAYLOAD_SIZE_def UDP_DATA_PACKET_BASE_SIZE_def)
  from exact_fit_boundary [OF h1, of sendto_all sample_thread] s1
  have c1: "\<exists>s' chunks.
         emit_frames sendto_all (replicate 112 sample_frame_8 @ [sample_frame_6]) sample_thread = Some s'
       \<and> udp_out s' = udp_out sample_thread @ datagrams (m_sequenceNumber sample_thread) chunks
       \<and> concat chunks = replicate 112 sample_frame_8 @ [sample_frame_6]
       \<and> length chunks = 1"
    by auto
  from exact_fit_boundary [OF h2, of sendto_all sample_thread] s2
  have c2: "\<exists>s' chunks.
         emit_frames sendto_all (replicate 112 sample_frame_8 @ [sample_frame_7]) sample_thread = Some s'
       \<and> udp_out s' = udp_out sample_thread @ datagrams (m_sequenceNumber sample_thread) chunks
       \<and> concat chunks = replicate 112 sample_frame_8 @ [sample_frame_7]
       \<and> 2 \<le> length chunks"
    by auto
  show ?thesis
    using h1 s1 c1 h2 s2 c2 by (intro conjI)
qed

lemma ntohl_htonl:
  "ntohl_bytes (ucast (drop_bit 24 w)) (ucast (drop_bit 16 w)) (ucast (drop_bit 8 w)) (ucast w) = w"
  unfolding ntohl_bytes_def
proof (rule bit_word_eqI)
  fix n :: nat
  assume "n < LENGTH(32)"
  then consider "n < 8" | "8 \<le> n" "n < 16" | "16 \<le> n" "n < 24" | "24 \<le> n" "n < 32"
    by fastforce
  then show "bit (push_bit 24 (ucast (ucast (drop_bit 24 w) :: 8 word))
                  OR push_bit 16 (ucast (ucast (drop_bit 16 w) :: 8 word))
                  OR push_bit 8 (ucast (ucast (drop_bit 8 w) :: 8 word))
                  OR ucast (ucast w :: 8 word) :: 32 word) n = bit w n"
    by cases (auto simp: bit_simps)
qed

lemma ntohs_htons:
  "ntohs_bytes (ucast (drop_bit 8 w)) (ucast w) = w"
  unfolding ntohs_bytes_def
proof (rule bit_word_eqI)
  fix n :: nat
  assume "n < LENGTH(16)"
  then consider "n < 8" | "8 \<le> n" "n < 16"
    by fastforce
  then show "bit (push_bit 8 (ucast (ucast (drop_bit 8 w) :: 8 word))
                  OR ucast (ucast w :: 8 word) :: 16 word) n = bit w n"
    by cases (auto simp: bit_simps)
qed

lemma buffer_at_append: "buffer_at (pre @ xs) (length pre + k) = buffer_at xs k"
  by (simp add: buffer_at_def nth_append)

lemma buffer_at_append0: "buffer_at (pre @ xs) (length pre) = buffer_at xs 0"
  using buffer_at_append [of pre xs 0] by simp

lemma read_record_frame_record:
  assumes "valid_frame f"
  shows "read_record junk (pre @ frame_record f @ rest) (length pre)
           = Complete \<lparr>can_id = can_id f, can_dlc = can_dlc f,
                       data = take (unat (can_dlc f)) (data f) @ drop (unat (can_dlc f)) junk\<rparr>
               (length pre + frame_wire_size f)"
proof -
  let ?n = "unat (can_dlc f)"
  let ?pay = "take ?n (data f)"
  let ?dg = "pre @ frame_record f @ rest"
  from assms have n: "?n \<le> 8" and ld: "length (data f) = 8"
    by (simp_all add: valid_frame_def)
  then have lp: "length ?pay = ?n"
    by simp
  have rec: "frame_record f
      = [ucast (drop_bit 24 (can_id f)), ucast (drop_bit 16 (can_id f)),
         ucast (drop_bit 8 (can_id f)), ucast (can_id f), can_dlc f] @ ?pay"
    by (simp add: frame_record_def htonl_bytes_def)
  have len: "length ?dg = length pre + 5 + ?n + length rest"
    using n ld by (simp add: rec)
  have b: "buffer_at ?dg (length pre) = ucast (drop_bit 24 (can_id f))"
    "buffer_at ?dg (length pre + 1) = ucast (drop_bit 16 (can_id f))"
    "buffer_at ?dg (length pre + 2) = ucast (drop_bit 8 (can_id f))"
    "buffer_at ?dg (length pre + 3) = ucast (can_id f)"
    "buffer_at ?dg (length pre + 4) = can_dlc f"
    using buffer_at_append [of pre "frame_record f @ rest" 0]
      buffer_at_append [of pre "frame_record f @ rest" 1]
      buffer_at_append [of pre "frame_record f @ rest" 2]
      buffer_at_append [of pre "frame_record f @ rest" 3]
      buffer_at_append [of pre "frame_record f @ rest" 4]
    by (simp_all add: rec buffer_at_def)
  have cid: "ntohl_at ?dg (length pre) = can_id f"
    unfolding ntohl_at_def b by (rule ntohl_htonl)
  have dr: "drop (length pre + 5) ?dg = ?pay @ rest"
    by (simp add: rec)
  have mem: "memcpy_into junk (?pay @ rest) ?n = ?pay @ drop ?n junk"
    using n ld by (simp add: memcpy_into_def)
  show ?thesis
    unfolding read_record_def cid b Let_def dr mem
    using len n by (simp add: CANNELLONI_FRAME_BASE_SIZE_def frame_wire_size_def)
qed

lemma frame_view_decoded:
  assumes "valid_frame f"
  shows "frame_view \<lparr>can_id = can_id f, can_dlc = can_dlc f,
                     data = take (unat (can_dlc f)) (data f) @ drop (unat (can_dlc f)) junk\<rparr>
           = frame_view f"
  using assms by (simp add: frame_view_def valid_frame_def)

lemma decode_loop_records:
  assumes "list_all valid_frame fs"
  shows "\<exists>fs'. decode_loop junk (pre @ concat (map frame_record fs) @ rest) (length fs) i (length pre) acc
                 = Some (acc\<lparr>dec_frames := dec_frames acc @ fs'\<rparr>)
             \<and> map frame_view fs' = map frame_view fs"
  using assms
proof (induction fs arbitrary: pre i acc)
  case Nil
  show ?case by simp
next
  case (Cons f fs)
  from Cons.prems have vf: "valid_frame f" and vfs: "list_all valid_frame fs"
    by simp_all
  define f' where "f' = \<lparr>can_id = can_id f, can_dlc = can_dlc f,
              data = take (unat (can_dlc f)) (data f) @ drop (unat (can_dlc f)) (junk i)\<rparr>"
  let ?acc' = "acc\<lparr>dec_frames := dec_frames acc @ [f']\<rparr>"
  have rr: "read_record (junk i) (pre @ frame_record f @ concat (map frame_record fs) @ rest)
             (length pre)
          = Complete f' (length pre + frame_wire_size f)"
    unfolding f'_def
    by (rule read_record_frame_record [OF vf])
  from Cons.IH [OF vfs, of "pre @ frame_record f" "Suc i" ?acc']
  obtain fs' where
    d: "decode_loop junk ((pre @ frame_record f) @ concat (map frame_record fs) @ rest)
          (length fs) (Suc i) (length (pre @ frame_record f)) ?acc'
        = Some (?acc'\<lparr>dec_frames := dec_frames ?acc' @ fs'\<rparr>)"
    and v: "map frame_view fs' = map frame_view fs"
    by blast
  have "decode_loop junk (pre @ concat (map frame_record (f # fs)) @ rest)
          (length (f # fs)) i (length pre) acc
        = Some (acc\<lparr>dec_frames := dec_frames acc @ (f' # fs')\<rparr>)"
    using d by (simp add: rr length_frame_record [OF vf])
  moreover have "frame_view f' = frame_view f"
    unfolding f'_def by (rule frame_view_decoded [OF vf])
  then have "map frame_view (f' # fs') = map frame_view (f # fs)"
    using v by simp
  ultimately show ?case
    by blast
qed

lemma length_le_wire_size: "length fs \<le> buffer_wire_size fs"
  by (induction fs) (simp_all add: frame_wire_size_def CANNELLONI_FRAME_BASE_SIZE_def)

lemma datagram_header:
  "pkt_version (datagram sq fs) = CANNELLONI_FRAME_VERSION"
  "pkt_op_code (datagram sq fs) = DATA"
  "pkt_seq_no (datagram sq fs) = sq"
  "pkt_count (datagram sq fs) = of_nat (length fs)"
  by (simp_all add: datagram_def htons_bytes_def pkt_version_def pkt_op_code_def
      pkt_count_def buffer_at_def ntohs_htons)

lemma decode_datagram_datagram:
  assumes "list_all valid_frame fs" and "length fs < 65536"
  shows "\<exists>fs'. decode_datagram junk (datagram sq fs)
                 = Some \<lparr>dec_error = False, dec_frames = fs'\<rparr>
             \<and> map frame_view fs' = map frame_view fs"
proof -
  let ?pre = "[CANNELLONI_FRAME_VERSION, DATA, sq] @ htons_bytes (of_nat (length fs))"
  have cnt: "unat (pkt_count (datagram sq fs)) = length fs"
    using assms(2) by (simp add: datagram_header unat_of_nat)
  have dg: "datagram sq fs = ?pre @ concat (map frame_record fs) @ []"
    by (simp add: datagram_def)
  have lp: "UDP_DATA_PACKET_BASE_SIZE = length ?pre"
    by (simp add: UDP_DATA_PACKET_BASE_SIZE_def htons_bytes_def)
  from decode_loop_records [OF assms(1), of junk ?pre "[]" 0
      "\<lparr>dec_error = False, dec_frames = []\<rparr>"]
  obtain fs' where
    "decode_loop junk (?pre @ concat (map frame_record fs) @ []) (length fs) 0 (length ?pre)
        \<lparr>dec_error = False, dec_frames = []\<rparr>
      = Some \<lparr>dec_error = False, dec_frames = fs'\<rparr>"
    and "map frame_view fs' = map frame_view fs"
    by auto
  then show ?thesis
    unfolding decode_datagram_def cnt
    unfolding lp dg by blast
qed

text \<open>
  C3. Codec round trip. A list of valid frames whose records fit one datagram is emitted
  as a single datagram; decoding that datagram is defined (no copy leaves a payload
  array), raises no error, and yields frames with the identifiers, lengths and payloads
  of the original ones, in order. The padding of a decoded frame behind its payload is
  whatever the receiver's frame variable held. A non-empty list is handed to the CAN
  worker; the datagram of the empty list announces zero frames and is dropped, so that
  nothing is handed over.
\<close>

theorem codec_round_trip:
  assumes "list_all valid_frame fs"
    and "UDP_DATA_PACKET_BASE_SIZE + buffer_wire_size fs \<le> UDP_PAYLOAD_SIZE"
  shows "\<exists>s' dg d. emit_frames sendto fs s = Some s' \<and> udp_out s' = udp_out s @ [dg]
           \<and> decode_datagram junk dg = Some d
           \<and> \<not> dec_error d
           \<and> map frame_view (dec_frames d) = map frame_view fs
           \<and> socket_ready junk remote (Received \<lparr>sin_port = port, sin_addr = sin_addr remote\<rparr> dg)
               = (if fs = [] then DroppedHeader else Handed (dec_frames d))"
proof -
  let ?dg = "datagram (m_sequenceNumber s) fs"
  have one: "chunks_from [] fs = [fs]"
    using chunks_from_fit [of "[]" fs] assms(2) by simp
  from emit_frames_chunks [OF assms(1), of sendto s] obtain s' where
    e: "emit_frames sendto fs s = Some s'" and o: "udp_out s' = udp_out s @ [?dg]"
    by (auto simp: one)
  have "length fs \<le> buffer_wire_size fs"
    by (rule length_le_wire_size)
  then have n: "length fs < 65536"
    using assms(2) by (simp add: UDP_PAYLOAD_SIZE_def)
  from decode_datagram_datagram [OF assms(1) n, of junk "m_sequenceNumber s"]
  obtain fs' where
    d: "decode_datagram junk ?dg = Some \<lparr>dec_error = False, dec_frames = fs'\<rparr>"
    and v: "map frame_view fs' = map frame_view fs"
    by auto
  have hd: "header_drop ?dg = (fs = [])"
    using n by (simp add: header_drop_def datagram_header unat_of_nat)
  have ne: "?dg \<noteq> []"
    by (simp add: datagram_def)
  have "socket_ready junk remote (Received \<lparr>sin_port = port, sin_addr = sin_addr remote\<rparr> ?dg)
          = (if fs = [] then DroppedHeader else Handed fs')"
    using ne by (simp add: socket_ready_def inet_ntop_always hd decode_and_hand_def d)
  then show ?thesis
    using e o d v
    by (intro exI [of _ s'] exI [of _ ?dg] exI [of _ "\<lparr>dec_error = False, dec_frames = fs'\<rparr>"])
      simp
qed

theorem codec_round_trip_witness:
  "list_all valid_frame [sample_frame_a, sample_frame_b]
   \<and> UDP_DATA_PACKET_BASE_SIZE + buffer_wire_size [sample_frame_a, sample_frame_b] \<le> UDP_PAYLOAD_SIZE
   \<and> (\<exists>s' dg d. emit_frames sendto_all [sample_frame_a, sample_frame_b] sample_thread = Some s'
         \<and> udp_out s' = udp_out sample_thread @ [dg]
         \<and> decode_datagram zero_junk dg = Some d
         \<and> \<not> dec_error d
         \<and> map frame_view (dec_frames d) = map frame_view [sample_frame_a, sample_frame_b]
         \<and> socket_ready zero_junk (m_remoteAddr sample_thread)
              (Received \<lparr>sin_port = 4711, sin_addr = sin_addr (m_remoteAddr sample_thread)\<rparr> dg)
             = (if [sample_frame_a, sample_frame_b] = [] then DroppedHeader
                else Handed (dec_frames d)))
   \<and> udp_out (the (emit_frames sendto_all [sample_frame_a, sample_frame_b] sample_thread))
       = [[1, 0, 0, 0, 2, 0, 0, 1, 0x23, 2, 0xDE, 0xAD, 0, 0, 0, 0x42, 0]]
   \<and> decode_datagram zero_junk
         [1, 0, 0, 0, 2, 0, 0, 1, 0x23, 2, 0xDE, 0xAD, 0, 0, 0, 0x42, 0]
       = Some \<lparr>dec_error = False, dec_frames = [sample_frame_a, sample_frame_b]\<rparr>"
proof -
  have h1: "list_all valid_frame [sample_frame_a, sample_frame_b]"
    by (simp add: valid_frame_def sample_frame_a_def sample_frame_b_def)
  have h2: "UDP_DATA_PACKET_BASE_SIZE + buffer_wire_size [sample_frame_a, sample_frame_b]
              \<le> UDP_PAYLOAD_SIZE"
    by (simp add: frame_wire_size_def sample_frame_a_def sample_frame_b_def
        UDP_DATA_PACKET_BASE_SIZE_def CANNELLONI_FRAME_BASE_SIZE_def UDP_PAYLOAD_SIZE_def)
  have out: "udp_out (the (emit_frames sendto_all [sample_frame_a, sample_frame_b] sample_thread))
       = [[1, 0, 0, 0, 2, 0, 0, 1, 0x23, 2, 0xDE, 0xAD, 0, 0, 0, 0x42, 0]]"
    by code_simp
  have dec: "decode_datagram zero_junk
         [1, 0, 0, 0, 2, 0, 0, 1, 0x23, 2, 0xDE, 0xAD, 0, 0, 0, 0x42, 0]
       = Some \<lparr>dec_error = False, dec_frames = [sample_frame_a, sample_frame_b]\<rparr>"
    by code_simp
  show ?thesis
    by (intro conjI h1 h2 out dec codec_round_trip [OF h1 h2])
qed

lemma lex_less_asym: "lex_less xs ys \<Longrightarrow> \<not> lex_less ys xs"
  by (induction xs ys rule: lex_less.induct) (auto split: if_splits)

lemma lex_less_negtrans:
  "\<not> lex_less ys xs \<Longrightarrow> \<not> lex_less zs ys \<Longrightarrow> \<not> lex_less zs xs"
proof (induction zs xs arbitrary: ys rule: lex_less.induct)
  case 1
  show ?case by simp
next
  case (2 x xs)
  then show ?case by (cases ys) (auto split: if_splits)
next
  case (3 z zs)
  show ?case by simp
next
  case (4 z zs x xs)
  show ?case
  proof (cases ys)
    case Nil
    with "4.prems" show ?thesis by simp
  next
    case (Cons y ys')
    with "4.prems" have a: "\<not> y < x" "\<not> z < y"
      and b: "x = y \<Longrightarrow> \<not> lex_less ys' xs" "y = z \<Longrightarrow> \<not> lex_less zs ys'"
      by (auto split: if_splits)
    show ?thesis
    proof (cases "z < x \<or> x < z")
      case True
      with a show ?thesis by auto
    next
      case False
      then have nz: "\<not> z < x" "\<not> x < z" and xz: "x = z"
        by auto
      with a have "x = y" "y = z" by auto
      with b have c: "\<not> lex_less ys' xs" "\<not> lex_less zs ys'" by simp_all
      have "\<not> lex_less zs xs"
        by (rule "4.IH" [OF nz c])
      then show ?thesis
        using xz by simp
    qed
  qed
qed

lemma can_frame_comp_asym: "can_frame_comp a b \<Longrightarrow> \<not> can_frame_comp b a"
  by (auto simp: can_frame_comp_def split: if_splits dest: lex_less_asym)

lemma can_frame_comp_negtrans:
  assumes "\<not> can_frame_comp b a" and "\<not> can_frame_comp c b"
  shows "\<not> can_frame_comp c a"
proof -
  let ?p = "\<lambda>f. take (unat (can_dlc f)) (data f)"
  from assms(1) have ab: "can_id a \<le> can_id b"
    "can_id a = can_id b \<Longrightarrow> can_dlc a \<le> can_dlc b"
    "can_id a = can_id b \<Longrightarrow> can_dlc a = can_dlc b \<Longrightarrow> \<not> lex_less (?p b) (?p a)"
    by (auto simp: can_frame_comp_def split: if_splits)
  from assms(2) have bc: "can_id b \<le> can_id c"
    "can_id b = can_id c \<Longrightarrow> can_dlc b \<le> can_dlc c"
    "can_id b = can_id c \<Longrightarrow> can_dlc b = can_dlc c \<Longrightarrow> \<not> lex_less (?p c) (?p b)"
    by (auto simp: can_frame_comp_def split: if_splits)
  show ?thesis
  proof (cases "can_id a = can_id c")
    case False
    with ab(1) bc(1) show ?thesis
      by (auto simp: can_frame_comp_def)
  next
    case True
    with ab(1) bc(1) have i: "can_id a = can_id b" "can_id b = can_id c"
      by auto
    show ?thesis
    proof (cases "can_dlc a = can_dlc c")
      case False
      with ab(2) bc(2) i True show ?thesis
        by (auto simp: can_frame_comp_def)
    next
      case d: True
      with ab(2) bc(2) i have j: "can_dlc a = can_dlc b" "can_dlc b = can_dlc c"
        by auto
      have "\<not> lex_less (?p c) (?p a)"
        by (rule lex_less_negtrans [OF ab(3) [OF i(1) j(1)] bc(3) [OF i(2) j(2)]])
      with True d show ?thesis
        by (simp add: can_frame_comp_def)
    qed
  qed
qed

lemma set_insert_comp [simp]: "set (insert_comp cmp x ys) = insert x (set ys)"
  by (induction ys) auto

lemma mset_insert_comp [simp]: "mset (insert_comp cmp x ys) = add_mset x (mset ys)"
  by (induction ys) simp_all

lemma mset_list_sort [simp]: "mset (list_sort cmp xs) = mset xs"
  by (induction xs) (simp_all add: list_sort_def)

lemma set_list_sort [simp]: "set (list_sort cmp xs) = set xs"
  by (induction xs) (simp_all add: list_sort_def)

lemma sorted_insert_comp:
  assumes asym: "\<And>a b. cmp a b \<Longrightarrow> \<not> cmp b a"
    and negtrans: "\<And>a b c. \<not> cmp b a \<Longrightarrow> \<not> cmp c b \<Longrightarrow> \<not> cmp c a"
    and "sorted_wrt (\<lambda>a b. \<not> cmp b a) ys"
  shows "sorted_wrt (\<lambda>a b. \<not> cmp b a) (insert_comp cmp x ys)"
  using assms(3)
proof (induction ys)
  case Nil
  show ?case by simp
next
  case (Cons y ys)
  from Cons.prems have above: "\<And>z. z \<in> set ys \<Longrightarrow> \<not> cmp z y"
    and srt: "sorted_wrt (\<lambda>a b. \<not> cmp b a) ys"
    by simp_all
  show ?case
  proof (cases "cmp y x")
    case True
    then have "\<not> cmp x y"
      by (rule asym)
    moreover have "sorted_wrt (\<lambda>a b. \<not> cmp b a) (insert_comp cmp x ys)"
      using srt by (rule Cons.IH)
    ultimately show ?thesis
      using True above by simp
  next
    case False
    have "\<not> cmp z x" if "z \<in> set ys" for z
      using False above [OF that] by (rule negtrans)
    then show ?thesis
      using False Cons.prems by simp
  qed
qed

lemma sorted_list_sort:
  assumes "\<And>a b. cmp a b \<Longrightarrow> \<not> cmp b a"
    and "\<And>a b c. \<not> cmp b a \<Longrightarrow> \<not> cmp c b \<Longrightarrow> \<not> cmp c a"
  shows "sorted_wrt (\<lambda>a b. \<not> cmp b a) (list_sort cmp xs)"
proof (induction xs)
  case Nil
  show ?case by (simp add: list_sort_def)
next
  case (Cons x xs)
  with assms have "sorted_wrt (\<lambda>a b. \<not> cmp b a) (insert_comp cmp x (list_sort cmp xs))"
    by (rule sorted_insert_comp)
  then show ?case by (simp add: list_sort_def)
qed

lemma map_snd_insert_comp:
  "map snd (insert_comp (\<lambda>a b. cmp (snd a) (snd b)) x ys) = insert_comp cmp (snd x) (map snd ys)"
  by (induction ys) simp_all

lemma map_snd_list_sort:
  "map snd (list_sort (\<lambda>a b. cmp (snd a) (snd b)) xs) = list_sort cmp (map snd xs)"
  by (induction xs) (simp_all add: list_sort_def map_snd_insert_comp)

text \<open>
  A flush under any comparator that is asymmetric and negatively transitive (a strict weak
  order): the frames of the datagrams it emits, read in order, are the buffer sorted.
\<close>

lemma flush_sorted_by:
  assumes asym: "\<And>a b. cmp a b \<Longrightarrow> \<not> cmp b a"
    and negtrans: "\<And>a b c. \<not> cmp b a \<Longrightarrow> \<not> cmp c b \<Longrightarrow> \<not> cmp c a"
    and valid: "list_all valid_frame (map snd (m_frameBuffer s))"
  shows "\<exists>s' chunks. transmitBuffer cmp sendto s = Some s'
           \<and> udp_out s' = udp_out s @ datagrams (m_sequenceNumber s) chunks
           \<and> sorted_wrt (\<lambda>a b. \<not> cmp b a) (concat chunks)
           \<and> mset (concat chunks) = mset (map snd (m_frameBuffer s))"
proof -
  let ?fs = "list_sort cmp (map snd (m_frameBuffer s))"
  let ?s2 = "s\<lparr>m_frameBufferSize := m_frameBufferSize_trans s,
                 m_frameBufferSize_trans := m_frameBufferSize s,
                 m_frameBuffer := m_frameBuffer_trans s,
                 m_frameBuffer_trans :=
                    list_sort (\<lambda>a b. cmp (snd a) (snd b)) (m_frameBuffer s)\<rparr>"
  have v: "list_all valid_frame ?fs"
    using valid by (simp add: list_all_iff)
  from emit_frames_chunks [OF v, of sendto ?s2] obtain s3 where
    e: "emit_frames sendto ?fs ?s2 = Some s3"
    and o: "udp_out s3 = udp_out s @ datagrams (m_sequenceNumber s) (chunks_from [] ?fs)"
    by auto
  let ?s' = "s3\<lparr>m_framePool := list_merge (m_framePool s3) (map fst (m_frameBuffer_trans s3)),
                m_frameBuffer_trans := [], m_frameBufferSize_trans := 0\<rparr>"
  have t: "transmitBuffer cmp sendto s = Some ?s'"
    using e by (simp add: transmitBuffer_def Let_def map_snd_list_sort)
  from asym negtrans have "sorted_wrt (\<lambda>a b. \<not> cmp b a) ?fs"
    by (rule sorted_list_sort)
  then have srt: "sorted_wrt (\<lambda>a b. \<not> cmp b a) (concat (chunks_from [] ?fs))"
    by simp
  show ?thesis
    using t o srt by (intro exI [of _ ?s'] exI [of _ "chunks_from [] ?fs"]) simp
qed

text \<open>
  C9. A flush emits the frames of the buffer sorted by the comparator: for valid frames,
  \<^verbatim>\<open>transmitBuffer\<close> with \<open>can_frame_comp\<close> completes, and the frames of the datagrams it
  emits, read in order, are a rearrangement of the buffer in which no frame is smaller
  than one before it (identifier first, then length, then payload).
\<close>

theorem flush_emits_sorted:
  assumes "list_all valid_frame (map snd (m_frameBuffer s))"
  shows "\<exists>s' chunks. transmitBuffer can_frame_comp sendto s = Some s'
           \<and> udp_out s' = udp_out s @ datagrams (m_sequenceNumber s) chunks
           \<and> sorted_wrt (\<lambda>a b. \<not> can_frame_comp b a) (concat chunks)
           \<and> mset (concat chunks) = mset (map snd (m_frameBuffer s))"
  using can_frame_comp_asym can_frame_comp_negtrans assms
  by (rule flush_sorted_by)

theorem flush_emits_sorted_witness:
  "list_all valid_frame (map snd (m_frameBuffer
      (the (sendCANFrame sample_frame_b
        (the (sendCANFrame sample_frame_a (resizePool 2 sample_thread)))))))
   \<and> (\<exists>s' chunks.
        transmitBuffer can_frame_comp sendto_all
          (the (sendCANFrame sample_frame_b
            (the (sendCANFrame sample_frame_a (resizePool 2 sample_thread))))) = Some s'
      \<and> udp_out s'
          = udp_out (the (sendCANFrame sample_frame_b
              (the (sendCANFrame sample_frame_a (resizePool 2 sample_thread)))))
            @ datagrams (m_sequenceNumber (the (sendCANFrame sample_frame_b
                (the (sendCANFrame sample_frame_a (resizePool 2 sample_thread)))))) chunks
      \<and> sorted_wrt (\<lambda>a b. \<not> can_frame_comp b a) (concat chunks)
      \<and> mset (concat chunks)
          = mset (map snd (m_frameBuffer (the (sendCANFrame sample_frame_b
              (the (sendCANFrame sample_frame_a (resizePool 2 sample_thread))))))))
   \<and> udp_out (the (transmitBuffer can_frame_comp sendto_all
        (the (sendCANFrame sample_frame_b
          (the (sendCANFrame sample_frame_a (resizePool 2 sample_thread)))))))
      = [[1, 0, 0, 0, 2, 0, 0, 0, 0x42, 0, 0, 0, 1, 0x23, 2, 0xDE, 0xAD]]"
proof -
  let ?S = "the (sendCANFrame sample_frame_b
              (the (sendCANFrame sample_frame_a (resizePool 2 sample_thread))))"
  have h: "list_all valid_frame (map snd (m_frameBuffer ?S))"
    by code_simp
  have out: "udp_out (the (transmitBuffer can_frame_comp sendto_all ?S))
      = [[1, 0, 0, 0, 2, 0, 0, 0, 0x42, 0, 0, 0, 1, 0x23, 2, 0xDE, 0xAD]]"
    by code_simp
  show ?thesis
    by (intro conjI h out flush_emits_sorted [OF h])
qed

text \<open>
  The round trip through a whole flush. \<^verbatim>\<open>transmitBuffer\<close> sorts before it writes, so what
  the receiver decodes from the datagram of a flush is the buffer in the comparator's
  order, whatever the comparator.
\<close>

lemma wire_size_insert_comp [simp]:
  "buffer_wire_size (insert_comp cmp x ys) = frame_wire_size x + buffer_wire_size ys"
  by (induction ys) simp_all

lemma wire_size_list_sort [simp]: "buffer_wire_size (list_sort cmp xs) = buffer_wire_size xs"
  by (induction xs) (simp_all add: list_sort_def)

lemma flush_round_trip:
  assumes "list_all valid_frame (map snd (m_frameBuffer s))"
    and "UDP_DATA_PACKET_BASE_SIZE + buffer_wire_size (map snd (m_frameBuffer s)) \<le> UDP_PAYLOAD_SIZE"
  shows "\<exists>s' dg d. transmitBuffer cmp sendto s = Some s' \<and> udp_out s' = udp_out s @ [dg]
           \<and> decode_datagram junk dg = Some d
           \<and> \<not> dec_error d
           \<and> map frame_view (dec_frames d)
               = map frame_view (list_sort cmp (map snd (m_frameBuffer s)))"
proof -
  let ?fs = "list_sort cmp (map snd (m_frameBuffer s))"
  let ?s2 = "s\<lparr>m_frameBufferSize := m_frameBufferSize_trans s,
                 m_frameBufferSize_trans := m_frameBufferSize s,
                 m_frameBuffer := m_frameBuffer_trans s,
                 m_frameBuffer_trans :=
                    list_sort (\<lambda>a b. cmp (snd a) (snd b)) (m_frameBuffer s)\<rparr>"
  let ?dg = "datagram (m_sequenceNumber s) ?fs"
  have v: "list_all valid_frame ?fs"
    using assms(1) by (simp add: list_all_iff)
  have fit: "UDP_DATA_PACKET_BASE_SIZE + buffer_wire_size [] + buffer_wire_size ?fs
               \<le> UDP_PAYLOAD_SIZE"
    using assms(2) by simp
  have one: "chunks_from [] ?fs = [?fs]"
    using chunks_from_fit [OF fit] by simp
  from emit_frames_chunks [OF v, of sendto ?s2] obtain s3 where
    e: "emit_frames sendto ?fs ?s2 = Some s3" and o: "udp_out s3 = udp_out s @ [?dg]"
    by (auto simp: one)
  let ?s' = "s3\<lparr>m_framePool := list_merge (m_framePool s3) (map fst (m_frameBuffer_trans s3)),
                m_frameBuffer_trans := [], m_frameBufferSize_trans := 0\<rparr>"
  have t: "transmitBuffer cmp sendto s = Some ?s'"
    using e by (simp add: transmitBuffer_def Let_def map_snd_list_sort)
  have "length ?fs \<le> buffer_wire_size ?fs"
    by (rule length_le_wire_size)
  then have n: "length ?fs < 65536"
    using fit by (simp add: UDP_PAYLOAD_SIZE_def)
  from decode_datagram_datagram [OF v n, of junk "m_sequenceNumber s"]
  obtain fs' where
    d: "decode_datagram junk ?dg = Some \<lparr>dec_error = False, dec_frames = fs'\<rparr>"
    and w: "map frame_view fs' = map frame_view ?fs"
    by auto
  show ?thesis
    using t o d w
    by (intro exI [of _ ?s'] exI [of _ ?dg] exI [of _ "\<lparr>dec_error = False, dec_frames = fs'\<rparr>"])
      simp
qed

end
